theory Spec2Isabelle
  imports Complex_Main
begin

section \<open>Python strings\<close>

text \<open>
  A Python \<open>str\<close> is a sequence of Unicode code points; \<open>len\<close> counts code points.
  A string is therefore a list of code points (\<open>ord\<close> of each character).
\<close>

type_synonym uchar = nat
type_synonym ustring = "uchar list"

definition ustr :: "string \<Rightarrow> ustring" where
  "ustr s = map of_char s"

text \<open>
  \<open>str.isspace\<close> of one character, which is also what \<open>str.split()\<close>, \<open>str.strip()\<close>
  and the regular expression class \<open>\s\<close> use: the white space code points of CPython.
\<close>

definition isspace :: "uchar \<Rightarrow> bool" where
  "isspace c \<longleftrightarrow>
     (9 \<le> c \<and> c \<le> 13) \<or> (28 \<le> c \<and> c \<le> 32) \<or> c = 133 \<or> c = 160 \<or> c = 5760 \<or>
     (8192 \<le> c \<and> c \<le> 8202) \<or> c = 8232 \<or> c = 8233 \<or> c = 8239 \<or> c = 8287 \<or> c = 12288"

text \<open>
  The case mapping, the alphanumeric and digit properties and the integer parser of
  \<open>str\<close> depend on the Unicode character database, which is not part of the program.
  They are parameters of the model. \<open>str.lower\<close> is a function of the whole string (the
  final sigma rule looks at context, and one character may lower to several).
\<close>

record pystr =
  str_lower :: "ustring \<Rightarrow> ustring"
  chr_isalnum :: "uchar \<Rightarrow> bool"
  chr_isdigit :: "uchar \<Rightarrow> bool"
  int_of_str :: "ustring \<Rightarrow> int option"

text \<open>\<open>s.split()\<close>: the maximal runs of characters that are not white space.\<close>

fun split_acc :: "ustring \<Rightarrow> ustring \<Rightarrow> ustring list" where
  "split_acc cur [] = (if cur = [] then [] else [cur])"
| "split_acc cur (c # cs) =
     (if isspace c then (if cur = [] then split_acc [] cs else cur # split_acc [] cs)
      else split_acc (cur @ [c]) cs)"

definition split :: "ustring \<Rightarrow> ustring list" where
  "split s = split_acc [] s"

text \<open>\<open>sep.join(xs)\<close>.\<close>

fun join :: "ustring \<Rightarrow> ustring list \<Rightarrow> ustring" where
  "join sep [] = []"
| "join sep [x] = x"
| "join sep (x # y # ys) = x @ sep @ join sep (y # ys)"

text \<open>\<open>s.strip()\<close>.\<close>

definition strip :: "ustring \<Rightarrow> ustring" where
  "strip s = rev (dropWhile isspace (rev (dropWhile isspace s)))"

section \<open>Width folding\<close>

definition fold_char :: "uchar \<Rightarrow> uchar" where
  "fold_char inside_code =
     (if inside_code = 12288 then 32
      else if 65281 \<le> inside_code \<and> inside_code \<le> 65374 then inside_code - 65248
      else inside_code)"

definition strQ2B :: "ustring \<Rightarrow> ustring" where
  "strQ2B ustring = map fold_char ustring"

section \<open>Phrase cleaning\<close>

definition DEFAULT_STOPWORDS :: "ustring set" where
  "DEFAULT_STOPWORDS = set (map ustr
     [''the'', ''a'', ''an'', ''and'', ''or'', ''but'', ''in'', ''on'', ''at'', ''to'', ''for'',
      ''of'', ''with'', ''by'', ''from'', ''up'', ''about'', ''into'', ''through'', ''during'',
      ''before'', ''after'', ''above'', ''below'', ''between'', ''among'', ''is'', ''are'',
      ''was'', ''were'', ''be'', ''been'', ''being'', ''have'', ''has'', ''had'', ''do'',
      ''does'', ''did'', ''will'', ''would'', ''could'', ''should'', ''may'', ''might'',
      ''must'', ''can'', ''this'', ''that'', ''these'', ''those'', ''i'', ''you'', ''he'',
      ''she'', ''it'', ''we'', ''they'', ''me'', ''him'', ''her'', ''us'', ''them'', ''my'',
      ''your'', ''his'', ''her'', ''its'', ''our'', ''their'', ''mine'', ''yours'', ''hers'',
      ''ours'', ''theirs'', ''myself'', ''yourself'', ''himself'', ''herself'', ''itself'',
      ''ourselves'', ''yourselves'', ''themselves'', ''what'', ''which'', ''who'', ''whom'',
      ''whose'', ''where'', ''when'', ''why'', ''how'', ''all'', ''any'', ''both'', ''each'',
      ''few'', ''more'', ''most'', ''other'', ''some'', ''such'', ''no'', ''nor'', ''not'',
      ''only'', ''own'', ''same'', ''so'', ''than'', ''too'', ''very'', ''s'', ''t'', ''just'',
      ''now''])"

text \<open>
  The pattern replaces every character that is not \<open>\w\<close> (an alphanumeric character
  or the underscore), not \<open>\s\<close> and not in the range U+4E00 to U+9FFF.
\<close>

definition kept_char :: "pystr \<Rightarrow> uchar \<Rightarrow> bool" where
  "kept_char U c \<longleftrightarrow>
     chr_isalnum U c \<or> c = 95 \<or> isspace c \<or> (19968 \<le> c \<and> c \<le> 40959)"

definition re_sub_space :: "pystr \<Rightarrow> ustring \<Rightarrow> ustring" where
  "re_sub_space U phrase = map (\<lambda>c. if kept_char U c then c else 32) phrase"

definition clean_phrase :: "pystr \<Rightarrow> ustring set \<Rightarrow> ustring \<Rightarrow> ustring" where
  "clean_phrase U stopwords phrase =
     (if phrase = [] then []
      else
        let phrase1 = strQ2B phrase;
            phrase2 = re_sub_space U phrase1;
            words = split (str_lower U phrase2);
            filtered_words = filter (\<lambda>w. w \<notin> stopwords \<and> length w > 1) words
        in join [32] filtered_words)"

section \<open>Index construction\<close>

text \<open>An index entry is the normalised value with its row number.\<close>

type_synonym entry = "ustring \<times> nat"
type_synonym index = "ustring \<rightharpoonup> entry list"

definition setdefault_append :: "index \<Rightarrow> ustring \<Rightarrow> entry \<Rightarrow> index" where
  "setdefault_append idx first e =
     idx(first \<mapsto> (case idx first of None \<Rightarrow> [] | Some b \<Rightarrow> b) @ [e])"

fun index_rows :: "pystr \<Rightarrow> nat \<Rightarrow> ustring list \<Rightarrow> index \<Rightarrow> index" where
  "index_rows U i [] idx = idx"
| "index_rows U i (word # rest) idx =
     (let w = strQ2B (str_lower U (strip word)) in
      if w = [] then index_rows U (Suc i) rest idx
      else
        let first = (case split w of [] \<Rightarrow> w | f # _ \<Rightarrow> f)
        in index_rows U (Suc i) rest (setdefault_append idx first (w, i)))"

text \<open>
  The sort key \<open>(len(x[0].split()), len(x[0]))\<close>, compared as Python compares tuples.
\<close>

definition bucket_key :: "entry \<Rightarrow> nat \<times> nat" where
  "bucket_key x = (length (split (fst x)), length (fst x))"

definition key_less :: "nat \<times> nat \<Rightarrow> nat \<times> nat \<Rightarrow> bool" where
  "key_less a b \<longleftrightarrow> fst a < fst b \<or> (fst a = fst b \<and> snd a < snd b)"

text \<open>
  \<open>list.sort(key=..., reverse=True)\<close> is stable: elements with equal keys keep their
  order. The stable descending sort is unique; it is computed here by insertion.
\<close>

fun insort_desc :: "entry \<Rightarrow> entry list \<Rightarrow> entry list" where
  "insort_desc x [] = [x]"
| "insort_desc x (y # ys) =
     (if key_less (bucket_key x) (bucket_key y) then y # insort_desc x ys else x # y # ys)"

definition sort_bucket :: "entry list \<Rightarrow> entry list" where
  "sort_bucket b = foldr insort_desc b []"

definition build_index :: "pystr \<Rightarrow> ustring list \<Rightarrow> index" where
  "build_index U word_list =
     (let idx = index_rows U 0 word_list Map.empty
      in (\<lambda>first. map_option sort_bucket (idx first)))"

section \<open>Matching\<close>

text \<open>
  A recorded match \<open>(keyword, i, end)\<close>. The end is \<open>i + len(keyword_words) - 1\<close>, an
  integer.
\<close>

type_synonym match = "ustring \<times> nat \<times> int"

text \<open>
  The inner loop over the candidates of one start position: the first candidate that
  fits, with the positions it adds to the used set, or \<open>None\<close> when the loop ends
  without \<open>break\<close>.
\<close>

fun try_candidates :: "ustring list \<Rightarrow> nat \<Rightarrow> entry list \<Rightarrow> (match \<times> nat list) option" where
  "try_candidates words i [] = None"
| "try_candidates words i ((keyword, r) # rest) =
     (let keyword_words = split keyword in
      if length keyword_words = 1 then
        (if words ! i = keyword then Some ((keyword, i, int i), [i])
         else try_candidates words i rest)
      else
        (if i + length keyword_words \<le> length words
            \<and> join [32] (take (length keyword_words) (drop i words)) = keyword
         then Some ((keyword, i, int i + int (length keyword_words) - 1),
                    [i ..< i + length keyword_words])
         else try_candidates words i rest))"

text \<open>
  The outer loop over the positions still to visit. Every position visited is below
  \<open>len(words)\<close>, so \<open>words ! i\<close> is in range.
\<close>

fun match_loop ::
  "index \<Rightarrow> ustring list \<Rightarrow> nat list \<Rightarrow> match list \<Rightarrow> nat set \<Rightarrow> match list \<times> nat set" where
  "match_loop idx words [] matches used_positions = (matches, used_positions)"
| "match_loop idx words (i # is) matches used_positions =
     (if i \<in> used_positions then match_loop idx words is matches used_positions
      else
        (case idx (words ! i) of
           None \<Rightarrow> match_loop idx words is matches used_positions
         | Some cands \<Rightarrow>
             (case try_candidates words i cands of
                None \<Rightarrow> match_loop idx words is matches used_positions
              | Some (m, claimed) \<Rightarrow>
                  match_loop idx words is (matches @ [m]) (used_positions \<union> set claimed))))"

definition match_from_index :: "ustring \<Rightarrow> index \<Rightarrow> nat set \<Rightarrow> match list \<times> nat set" where
  "match_from_index phrase idx used_positions =
     (let words = split phrase
      in match_loop idx words [0 ..< length words] [] used_positions)"

section \<open>The matcher and extraction\<close>

record matcher =
  stopwords :: "ustring set"
  rank_limit :: "int option"
  keyword_index :: index
  type_index :: index
  gender_index :: index
  size_index :: index
  age_index :: index
  brand_index :: index

text \<open>The six passes of \<open>extract_all\<close>, with the positions of every match kept.\<close>

record field_matches =
  m_keywords :: "match list"
  m_brands :: "match list"
  m_types :: "match list"
  m_sizes :: "match list"
  m_ages :: "match list"
  m_genders :: "match list"
  m_used :: "nat set"

definition run_passes :: "matcher \<Rightarrow> ustring \<Rightarrow> field_matches" where
  "run_passes M cleaned_phrase =
     (let used0 = {};
          (keywords, used1) = match_from_index cleaned_phrase (keyword_index M) used0;
          (brands, used2) = match_from_index cleaned_phrase (brand_index M) used1;
          (types, used3) = match_from_index cleaned_phrase (type_index M) used2;
          (sizes, used4) = match_from_index cleaned_phrase (size_index M) used3;
          (ages, used5) = match_from_index cleaned_phrase (age_index M) used4;
          (genders, used6) = match_from_index cleaned_phrase (gender_index M) used5
      in \<lparr>m_keywords = keywords, m_brands = brands, m_types = types, m_sizes = sizes,
          m_ages = ages, m_genders = genders, m_used = used6\<rparr>)"

record extraction =
  e_keywords :: "ustring list"
  e_brands :: "ustring list"
  e_types :: "ustring list"
  e_sizes :: "ustring list"
  e_ages :: "ustring list"
  e_genders :: "ustring list"
  uncovered_words :: "ustring list"

definition empty_extraction :: extraction where
  "empty_extraction =
     \<lparr>e_keywords = [], e_brands = [], e_types = [], e_sizes = [], e_ages = [], e_genders = [],
      uncovered_words = []\<rparr>"

definition extract_all :: "pystr \<Rightarrow> matcher \<Rightarrow> ustring \<Rightarrow> extraction" where
  "extract_all U M phrase =
     (let cleaned_phrase = clean_phrase U (stopwords M) phrase in
      if cleaned_phrase = [] then empty_extraction
      else
        let fm = run_passes M cleaned_phrase;
            words = split cleaned_phrase;
            uncovered = map (\<lambda>i. words ! i)
                          (filter (\<lambda>i. i \<notin> m_used fm) [0 ..< length words])
        in \<lparr>e_keywords = map fst (m_keywords fm), e_brands = map fst (m_brands fm),
            e_types = map fst (m_types fm), e_sizes = map fst (m_sizes fm),
            e_ages = map fst (m_ages fm), e_genders = map fst (m_genders fm),
            uncovered_words = uncovered\<rparr>)"

text \<open>The token positions a recorded match spans, \<open>i .. end\<close>.\<close>

definition span :: "match \<Rightarrow> nat set" where
  "span m = {j. int (fst (snd m)) \<le> int j \<and> int j \<le> snd (snd m)}"

definition claimed_by :: "match list \<Rightarrow> nat set" where
  "claimed_by ms = \<Union> (set (map span ms))"

section \<open>Options\<close>

text \<open>
  The options dictionary: the two entries the matcher reads, \<open>None\<close> for an absent key.
\<close>

record options =
  opt_rank_limit :: "ustring option"
  opt_custom_stopwords :: "ustring option"

datatype error = ValueError | LoadFailed

text \<open>\<open>s.isdigit()\<close>: at least one character, and every character a digit.\<close>

definition isdigit :: "pystr \<Rightarrow> ustring \<Rightarrow> bool" where
  "isdigit U s \<longleftrightarrow> s \<noteq> [] \<and> list_all (chr_isdigit U) s"

text \<open>\<open>int(s)\<close> raises \<open>ValueError\<close> on a string that is not an integer literal.\<close>

definition parse_rank_limit :: "pystr \<Rightarrow> options \<Rightarrow> error + int option" where
  "parse_rank_limit U opts =
     (let rank_limit_str = (case opt_rank_limit opts of None \<Rightarrow> [] | Some s \<Rightarrow> s) in
      if rank_limit_str \<noteq> [] \<and> isdigit U rank_limit_str then
        (case int_of_str U rank_limit_str of
           None \<Rightarrow> Inl ValueError
         | Some n \<Rightarrow> Inr (Some n))
      else Inr None)"

text \<open>\<open>s.split(sep)\<close> with a one-character separator keeps empty pieces.\<close>

fun split_on :: "uchar \<Rightarrow> ustring \<Rightarrow> ustring \<Rightarrow> ustring list" where
  "split_on sep cur [] = [cur]"
| "split_on sep cur (c # cs) =
     (if c = sep then cur # split_on sep [] cs else split_on sep (cur @ [c]) cs)"

definition get_stopwords :: "pystr \<Rightarrow> options \<Rightarrow> ustring set" where
  "get_stopwords U opts =
     (let custom_stopwords = (case opt_custom_stopwords opts of None \<Rightarrow> [] | Some s \<Rightarrow> s) in
      if custom_stopwords \<noteq> [] then
        DEFAULT_STOPWORDS \<union>
          set (map (\<lambda>w. str_lower U (strip w))
                 (filter (\<lambda>w. strip w \<noteq> []) (split_on 44 [] custom_stopwords)))
      else DEFAULT_STOPWORDS)"

section \<open>Loading the reference table\<close>

text \<open>
  The reference table as the spreadsheet reader delivers it: the columns in order, each
  a header and its cells, every cell already converted to a string.
\<close>

type_synonym table = "(ustring \<times> ustring list) list"

datatype role = Keyword | Type | Gender | Size | Special_Age | Brand

text \<open>\<open>needle in hay\<close> for strings.\<close>

fun str_in :: "ustring \<Rightarrow> ustring \<Rightarrow> bool" where
  "str_in needle [] = (needle = [])"
| "str_in needle (c # cs) = (take (length needle) (c # cs) = needle \<or> str_in needle cs)"

definition normalize_header :: "ustring \<Rightarrow> ustring" where
  "normalize_header c =
     map (\<lambda>x. if x = 65289 then 41 else x)
       (map (\<lambda>x. if x = 65288 then 40 else x)
          (filter (\<lambda>x. x \<noteq> 32) (strip (strQ2B c))))"

text \<open>The \<open>if\<close>/\<open>elif\<close> chain of the header scan, for one header.\<close>

definition header_role :: "pystr \<Rightarrow> ustring \<Rightarrow> role option" where
  "header_role U c =
     (if str_in (ustr ''keyword'') (str_lower U c) \<or> str_in [20851, 38190, 35789] c
        then Some Keyword
      else if str_in (ustr ''type'') (str_lower U c) \<or> str_in [31867, 22411] c
        then Some Type
      else if str_in (ustr ''gender'') (str_lower U c) \<or> str_in [24615, 21035] c
        then Some Gender
      else if str_in (ustr ''size'') (str_lower U c) \<or> str_in [23610, 30721] c
        then Some Size
      else if str_in (ustr ''age'') (str_lower U c) \<or> str_in [24180, 40836] c
              \<or> str_in (ustr ''specialage'') (str_lower U (filter (\<lambda>x. x \<noteq> 32) c))
        then Some Special_Age
      else if str_in (ustr ''brand'') (str_lower U c) \<or> str_in [21697, 29260] c
        then Some Brand
      else None)"

fun map_columns :: "pystr \<Rightarrow> ustring list \<Rightarrow> (role \<rightharpoonup> ustring) \<Rightarrow> (role \<rightharpoonup> ustring)" where
  "map_columns U [] col_map = col_map"
| "map_columns U (c # cs) col_map =
     (case header_role U c of
        None \<Rightarrow> map_columns U cs col_map
      | Some r \<Rightarrow> map_columns U cs (col_map(r \<mapsto> c)))"

text \<open>
  Selecting a column by its label. A label carried by two columns selects a frame of
  both, which has no \<open>tolist\<close>; the loader turns that failure, like every other, into
  its load error.
\<close>

definition select_column :: "table \<Rightarrow> ustring \<Rightarrow> error + ustring list" where
  "select_column df label =
     (case filter (\<lambda>col. fst col = label) df of
        [col] \<Rightarrow> Inr (snd col)
      | _ \<Rightarrow> Inl LoadFailed)"

record field_lists =
  keyword_list :: "ustring list"
  type_list :: "ustring list"
  gender_list :: "ustring list"
  size_list :: "ustring list"
  age_list :: "ustring list"
  brand_list :: "ustring list"

text \<open>
  The five lists other than the keyword list: \<open>df[...] if role in col_map else []\<close>.
\<close>

definition role_list :: "table \<Rightarrow> (role \<rightharpoonup> ustring) \<Rightarrow> role \<Rightarrow> error + ustring list" where
  "role_list df col_map r =
     (case col_map r of None \<Rightarrow> Inr [] | Some label \<Rightarrow> select_column df label)"

definition normalize_columns :: "table \<Rightarrow> table" where
  "normalize_columns raw = map (\<lambda>col. (normalize_header (fst col), snd col)) raw"

definition extract_lists :: "pystr \<Rightarrow> table \<Rightarrow> error + field_lists" where
  "extract_lists U raw =
     (let df = normalize_columns raw;
          col_map = map_columns U (map fst df) Map.empty
      in case df of
           [] \<Rightarrow> Inl LoadFailed
         | first_col # _ \<Rightarrow>
             (case select_column df (case col_map Keyword of None \<Rightarrow> fst first_col | Some c \<Rightarrow> c) of
                Inl e \<Rightarrow> Inl e
              | Inr kws \<Rightarrow>
             (case role_list df col_map Type of Inl e \<Rightarrow> Inl e | Inr tys \<Rightarrow>
             (case role_list df col_map Gender of Inl e \<Rightarrow> Inl e | Inr gens \<Rightarrow>
             (case role_list df col_map Size of Inl e \<Rightarrow> Inl e | Inr szs \<Rightarrow>
             (case role_list df col_map Special_Age of Inl e \<Rightarrow> Inl e | Inr ags \<Rightarrow>
             (case role_list df col_map Brand of Inl e \<Rightarrow> Inl e | Inr brs \<Rightarrow>
                Inr \<lparr>keyword_list = kws, type_list = tys, gender_list = gens, size_list = szs,
                     age_list = ags, brand_list = brs\<rparr>)))))))"

definition new_matcher :: "pystr \<Rightarrow> options \<Rightarrow> table \<Rightarrow> error + matcher" where
  "new_matcher U opts keyword_file =
     (let sw = get_stopwords U opts in
      case parse_rank_limit U opts of
        Inl e \<Rightarrow> Inl e
      | Inr rl \<Rightarrow>
          (case extract_lists U keyword_file of
             Inl e \<Rightarrow> Inl e
           | Inr fls \<Rightarrow>
               Inr \<lparr>stopwords = sw, rank_limit = rl,
                    keyword_index = build_index U (keyword_list fls),
                    type_index = build_index U (type_list fls),
                    gender_index = build_index U (gender_list fls),
                    size_index = build_index U (size_list fls),
                    age_index = build_index U (age_list fls),
                    brand_index = build_index U (brand_list fls)\<rparr>))"

section \<open>Floating point\<close>

text \<open>
  Python's \<open>float\<close> is IEEE binary64. An operation returns the exact result rounded to
  the nearest number with a 53 bit significand, ties to the even significand. The values
  below are exact rationals; \<open>round_binary64\<close> is that rounding on the normal range
  (magnitudes from \<open>2^-1022\<close> up to the overflow threshold), which holds every quotient
  of two row counts and every percentage.
\<close>

fun bit_length :: "nat \<Rightarrow> nat" where
  "bit_length n = (if n = 0 then 0 else Suc (bit_length (n div 2)))"

declare bit_length.simps [simp del]

text \<open>The binary exponent of a positive rational: \<open>2^ilog2 x \<le> x < 2^(ilog2 x + 1)\<close>.\<close>

definition ilog2 :: "rat \<Rightarrow> int" where
  "ilog2 x =
     (if 1 \<le> x then int (bit_length (nat \<lfloor>x\<rfloor>)) - 1
      else - int (bit_length (nat (\<lceil>1 / x\<rceil> - 1))))"

definition round_half_even :: "rat \<Rightarrow> int" where
  "round_half_even x =
     (let f = \<lfloor>x\<rfloor>; d = x - of_int f in
      if d < 1 / 2 then f else if 1 / 2 < d then f + 1 else if even f then f else f + 1)"

definition round_binary64 :: "rat \<Rightarrow> rat" where
  "round_binary64 x =
     (if x = 0 then 0
      else
        let e = ilog2 \<bar>x\<bar> - 52
        in of_int (round_half_even (x / 2 powi e)) * 2 powi e)"

text \<open>\<open>a / b\<close> on integers (true division, correctly rounded) and \<open>x * y\<close> on floats.\<close>

definition truediv :: "int \<Rightarrow> int \<Rightarrow> rat" where
  "truediv a b = round_binary64 (of_int a / of_int b)"

definition fmul :: "rat \<Rightarrow> rat \<Rightarrow> rat" where
  "fmul x y = round_binary64 (x * y)"

text \<open>\<open>int(x)\<close> truncates towards zero.\<close>

definition py_int :: "rat \<Rightarrow> int" where
  "py_int x = (if 0 \<le> x then \<lfloor>x\<rfloor> else \<lceil>x\<rceil>)"

text \<open>
  \<open>round(x, 2)\<close>: the exact value of \<open>x\<close> rounded to two decimals, ties to even, then
  the float nearest to that decimal.
\<close>

definition py_round2 :: "rat \<Rightarrow> rat" where
  "py_round2 x = round_binary64 (of_int (round_half_even (x * 100)) / 100)"

section \<open>Batch processing\<close>

text \<open>
  One output row: the phrase and the joined matches of each field. The other columns of
  the input are copied to the output unchanged and are left out here.
\<close>

record result_row =
  r_phrase :: ustring
  r_keywords :: ustring
  r_brands :: ustring
  r_types :: ustring
  r_sizes :: ustring
  r_ages :: ustring
  r_genders :: ustring
  r_uncovered :: ustring

definition make_row :: "ustring \<Rightarrow> extraction \<Rightarrow> result_row" where
  "make_row phrase extracted =
     \<lparr>r_phrase = phrase,
      r_keywords = join [44, 32] (e_keywords extracted),
      r_brands = join [44, 32] (e_brands extracted),
      r_types = join [44, 32] (e_types extracted),
      r_sizes = join [44, 32] (e_sizes extracted),
      r_ages = join [44, 32] (e_ages extracted),
      r_genders = join [44, 32] (e_genders extracted),
      r_uncovered = join [44, 32] (uncovered_words extracted)\<rparr>"

definition progress_value :: "nat \<Rightarrow> nat \<Rightarrow> int" where
  "progress_value idx total_rows =
     py_int (fmul (truediv (int idx + 1) (int total_rows)) 100)"

text \<open>
  The loop over the rows of the phrase column (\<open>None\<close> is a missing cell). It returns the
  result rows and the values passed to the progress callback, in call order.
\<close>

fun process_rows ::
  "pystr \<Rightarrow> matcher \<Rightarrow> nat \<Rightarrow> nat \<Rightarrow> ustring option list \<Rightarrow> result_row list \<times> int list" where
  "process_rows U M total_rows idx [] = ([], [])"
| "process_rows U M total_rows idx (cell # rest) =
     (let phrase = (case cell of None \<Rightarrow> [] | Some s \<Rightarrow> s);
          extracted = extract_all U M phrase;
          result_row = make_row phrase extracted;
          progress = progress_value idx total_rows;
          (results, calls) = process_rows U M total_rows (Suc idx) rest
      in (result_row # results, progress # calls))"

record statistics =
  total_phrases :: nat
  keyword_coverage :: rat
  brand_coverage :: rat
  type_coverage :: rat

definition coverage :: "(result_row \<Rightarrow> ustring) \<Rightarrow> result_row list \<Rightarrow> rat" where
  "coverage field results =
     (let total = length results in
      if total > 0
      then fmul (truediv (int (length (filter (\<lambda>r. field r \<noteq> []) results))) (int total)) 100
      else 0)"

text \<open>
  The summary. Its list of the most frequent uncovered words is left out: no property
  below depends on it.
\<close>

definition generate_statistics :: "result_row list \<Rightarrow> statistics" where
  "generate_statistics results =
     \<lparr>total_phrases = length results,
      keyword_coverage = py_round2 (coverage r_keywords results),
      brand_coverage = py_round2 (coverage r_brands results),
      type_coverage = py_round2 (coverage r_types results)\<rparr>"

record outcome =
  out_rows :: "result_row list"
  out_progress :: "int list"
  total_processed :: nat
  out_statistics :: statistics

definition apply_rank_limit :: "matcher \<Rightarrow> 'a list \<Rightarrow> 'a list" where
  "apply_rank_limit M df =
     (case rank_limit M of
        None \<Rightarrow> df
      | Some n \<Rightarrow> if n \<noteq> 0 \<and> n > 0 then take (nat n) df else df)"

definition process_file :: "pystr \<Rightarrow> matcher \<Rightarrow> ustring option list \<Rightarrow> outcome" where
  "process_file U M rows =
     (let df = apply_rank_limit M rows;
          total_rows = length df;
          (results, calls) = process_rows U M total_rows 0 df
      in \<lparr>out_rows = results, out_progress = calls, total_processed = total_rows,
          out_statistics = generate_statistics results\<rparr>)"

section \<open>Character tables for evaluation\<close>

text \<open>
  An excerpt of CPython's character database: it agrees with CPython on the ASCII
  range, on U+00B2 (superscript two: a digit that is not a decimal digit), on U+0130
  (capital I with dot above, which lowers to \<open>i\<close> followed by U+0307), on U+0307
  (a combining mark, not alphanumeric) and on the CJK ideographs U+4E00 to U+9FFF.
  It is used only to evaluate the functions on strings of these characters.
\<close>

definition lower_char :: "uchar \<Rightarrow> ustring" where
  "lower_char c =
     (if 65 \<le> c \<and> c \<le> 90 then [c + 32] else if c = 304 then [105, 775] else [c])"

definition ascii_digit :: "uchar \<Rightarrow> bool" where
  "ascii_digit c \<longleftrightarrow> 48 \<le> c \<and> c \<le> 57"

fun decimal_value :: "int \<Rightarrow> ustring \<Rightarrow> int option" where
  "decimal_value acc [] = Some acc"
| "decimal_value acc (c # cs) =
     (if ascii_digit c then decimal_value (10 * acc + int (c - 48)) cs else None)"

definition excerpt :: pystr where
  "excerpt =
     \<lparr>str_lower = (\<lambda>s. concat (map lower_char s)),
      chr_isalnum = (\<lambda>c. ascii_digit c \<or> (65 \<le> c \<and> c \<le> 90) \<or> (97 \<le> c \<and> c \<le> 122)
                         \<or> c = 178 \<or> c = 304 \<or> (19968 \<le> c \<and> c \<le> 40959)),
      chr_isdigit = (\<lambda>c. ascii_digit c \<or> c = 178),
      int_of_str = (\<lambda>s. if s = [] then None else decimal_value 0 s)\<rparr>"

section \<open>The roles of the header scan, one by one\<close>

text \<open>
  The test the scan applies for each role taken alone, and the roles tested before it in
  the \<open>elif\<close> chain.
\<close>

definition role_test :: "pystr \<Rightarrow> role \<Rightarrow> ustring \<Rightarrow> bool" where
  "role_test U r c =
     (case r of
        Keyword \<Rightarrow> str_in (ustr ''keyword'') (str_lower U c) \<or> str_in [20851, 38190, 35789] c
      | Type \<Rightarrow> str_in (ustr ''type'') (str_lower U c) \<or> str_in [31867, 22411] c
      | Gender \<Rightarrow> str_in (ustr ''gender'') (str_lower U c) \<or> str_in [24615, 21035] c
      | Size \<Rightarrow> str_in (ustr ''size'') (str_lower U c) \<or> str_in [23610, 30721] c
      | Special_Age \<Rightarrow> str_in (ustr ''age'') (str_lower U c) \<or> str_in [24180, 40836] c
              \<or> str_in (ustr ''specialage'') (str_lower U (filter (\<lambda>x. x \<noteq> 32) c))
      | Brand \<Rightarrow> str_in (ustr ''brand'') (str_lower U c) \<or> str_in [21697, 29260] c)"

fun tested_before :: "role \<Rightarrow> role list" where
  "tested_before Keyword = []"
| "tested_before Type = [Keyword]"
| "tested_before Gender = [Keyword, Type]"
| "tested_before Size = [Keyword, Type, Gender]"
| "tested_before Special_Age = [Keyword, Type, Gender, Size]"
| "tested_before Brand = [Keyword, Type, Gender, Size, Special_Age]"

definition assigned :: "pystr \<Rightarrow> role \<Rightarrow> ustring \<Rightarrow> bool" where
  "assigned U r c \<longleftrightarrow> role_test U r c \<and> (\<forall>r' \<in> set (tested_before r). \<not> role_test U r' c)"

section \<open>Order of the candidates\<close>





section \<open>Cleaned text that cleaning leaves alone\<close>

text \<open>
  A text is settled when each of its characters is kept by the pattern and unchanged by
  width folding, and the text is its own lower-case form.
\<close>

definition settled :: "pystr \<Rightarrow> ustring \<Rightarrow> bool" where
  "settled U y \<longleftrightarrow>
     (\<forall>c \<in> set y. kept_char U c \<and> fold_char c = c) \<and> str_lower U y = y"

text \<open>
  Plain text: ASCII characters, the full-width forms U+FF01 to U+FF5E, the ideographic
  space U+3000 and the CJK ideographs U+4E00 to U+9FFF. On ASCII characters and CJK
  ideographs Python's \<open>str.lower\<close> maps \<open>A\<close> to \<open>Z\<close> to \<open>a\<close> to \<open>z\<close> and leaves every
  other character as it is, and the alphanumeric ASCII characters are the letters and
  the digits; \<open>plain_tables\<close> says that a character table behaves so.
\<close>

definition ascii_lower :: "uchar \<Rightarrow> uchar" where
  "ascii_lower c = (if 65 \<le> c \<and> c \<le> 90 then c + 32 else c)"

definition ascii_alnum :: "uchar \<Rightarrow> bool" where
  "ascii_alnum c \<longleftrightarrow> (48 \<le> c \<and> c \<le> 57) \<or> (65 \<le> c \<and> c \<le> 90) \<or> (97 \<le> c \<and> c \<le> 122)"

definition cjk :: "uchar \<Rightarrow> bool" where
  "cjk c \<longleftrightarrow> 19968 \<le> c \<and> c \<le> 40959"

definition plain_tables :: "pystr \<Rightarrow> bool" where
  "plain_tables U \<longleftrightarrow>
     (\<forall>s. (\<forall>c \<in> set s. c < 128 \<or> cjk c) \<longrightarrow> str_lower U s = map ascii_lower s)
     \<and> (\<forall>c < 128. chr_isalnum U c \<longleftrightarrow> ascii_alnum c)"

definition plain_text :: "ustring \<Rightarrow> bool" where
  "plain_text x \<longleftrightarrow>
     (\<forall>c \<in> set x. c < 128 \<or> (65281 \<le> c \<and> c \<le> 65374) \<or> c = 12288 \<or> cjk c)"

text \<open>A character that no step of the cleaning changes.\<close>

definition good_char :: "pystr \<Rightarrow> uchar \<Rightarrow> bool" where
  "good_char U c \<longleftrightarrow>
     (c < 128 \<or> cjk c) \<and> kept_char U c \<and> fold_char c = c \<and> ascii_lower c = c"

section \<open>Counting covered rows\<close>

text \<open>
  The phrase of a cell; an index none of whose entries is the empty string; the number
  of rows whose extraction has a non-empty sequence in a given field.
\<close>

definition cell_phrase :: "ustring option \<Rightarrow> ustring" where
  "cell_phrase cell = (case cell of None \<Rightarrow> [] | Some s \<Rightarrow> s)"



section \<open>Exact percentages\<close>

text \<open>
  The values in exact arithmetic that the computed ones are compared with: the
  percentage of completed rows rounded down to a whole number; the percentage of \<open>c\<close>
  rows among \<open>n\<close>; a number rounded to two decimals, a tie going to the even last
  digit; a number lying exactly half-way between two neighbouring two-decimal values.
\<close>

definition exact_progress :: "nat \<Rightarrow> nat \<Rightarrow> int" where
  "exact_progress k n = \<lfloor>rat_of_nat (k + 1) / rat_of_nat n * 100\<rfloor>"





section \<open>Example inputs\<close>

definition no_options :: options where
  "no_options = \<lparr>opt_rank_limit = None, opt_custom_stopwords = None\<rparr>"

text \<open>A reference table with a keyword column and a brand column, two rows.\<close>

definition shoe_table :: table where
  "shoe_table = [(ustr ''Keyword'', [ustr ''shoe'', ustr ''sock'']),
                 (ustr ''Brand'', [ustr ''shoe'', ustr ''running shoe''])]"

text \<open>A reference table whose only header names no role.\<close>

definition name_table :: table where
  "name_table = [(ustr ''Name'', [ustr ''shoe''])]"

text \<open>The matcher that \<open>shoe_table\<close> loads to.\<close>

definition shoe_matcher :: matcher where
  "shoe_matcher =
     \<lparr>stopwords = DEFAULT_STOPWORDS, rank_limit = None,
      keyword_index = build_index excerpt [ustr ''shoe'', ustr ''sock''],
      type_index = build_index excerpt [],
      gender_index = build_index excerpt [],
      size_index = build_index excerpt [],
      age_index = build_index excerpt [],
      brand_index = build_index excerpt [ustr ''shoe'', ustr ''running shoe'']\<rparr>"


text \<open>
  A phrase of ASCII letters, digits, punctuation and doubled spaces, two full-width
  letters, an ideographic space and two CJK ideographs.
\<close>

definition mixed_phrase :: ustring where
  "mixed_phrase = ustr ''The  Running_Shoe, 42! '' @ [65329, 65313, 12288, 36305, 27493]"

text \<open>Two batches for \<open>shoe_matcher\<close>, of ten and of four rows.\<close>

definition ten_rows :: "ustring option list" where
  "ten_rows = [Some (ustr ''red shoe''), Some (ustr ''sock''), None, Some (ustr ''Running Shoe''),
     Some (ustr ''the''), Some (ustr ''blue sock''), Some (ustr ''shoe shoe''), Some [],
     Some (ustr ''hat''), Some (ustr ''sock shoe'')]"



section \<open>Evaluation\<close>

lemmas string_eval = ustr_def isspace_def split_def strip_def fold_char_def strQ2B_def
  kept_char_def re_sub_space_def clean_phrase_def DEFAULT_STOPWORDS_def Let_def
  excerpt_def lower_char_def ascii_digit_def

lemmas index_eval = setdefault_append_def bucket_key_def key_less_def sort_bucket_def
  build_index_def

lemmas load_eval = no_options_def parse_rank_limit_def isdigit_def get_stopwords_def
  normalize_header_def normalize_columns_def header_role_def select_column_def role_list_def
  extract_lists_def new_matcher_def

lemmas match_eval = match_from_index_def run_passes_def extract_all_def span_def
  claimed_by_def empty_extraction_def

section \<open>Positions claimed twice\<close>

text \<open>
  C1 (non-overlap of the positions claimed by the six fields), evaluated on the table
  \<open>shoe_table\<close> and the phrase "Running Shoe". The keyword pass claims position 1 for
  "shoe". The brand pass starts at the unclaimed position 0, where "running shoe" fits,
  and records the span 0..1: only the start of a span is tested against the used
  positions. Position 1 is then claimed by both fields.
\<close>

theorem overlap_keyword_brand:
  "(case new_matcher excerpt no_options shoe_table of
      Inl e \<Rightarrow> False
    | Inr M \<Rightarrow>
        (let fm = run_passes M (clean_phrase excerpt (stopwords M) (ustr ''Running Shoe'')) in
           m_keywords fm = [(ustr ''shoe'', 1, 1)]
           \<and> m_brands fm = [(ustr ''running shoe'', 0, 1)]
           \<and> 1 \<in> claimed_by (m_keywords fm) \<inter> claimed_by (m_brands fm)))"
  by (simp add: shoe_table_def string_eval load_eval index_eval match_eval)

text \<open>
  C3 (a token matchable in both the keyword and the brand index is claimed by the
  keyword field only and never appears in the brand output), evaluated on the same
  input. The token "shoe" at position 1 is an entry of both indexes. The keyword output
  is "shoe"; the brand output is "running shoe", whose span holds position 1.
\<close>

theorem keyword_token_in_brand_output:
  "(case new_matcher excerpt no_options shoe_table of
      Inl e \<Rightarrow> False
    | Inr M \<Rightarrow>
        keyword_index M (ustr ''shoe'') = Some [(ustr ''shoe'', 0)]
        \<and> brand_index M (ustr ''shoe'') = Some [(ustr ''shoe'', 0)]
        \<and> e_keywords (extract_all excerpt M (ustr ''Running Shoe'')) = [ustr ''shoe'']
        \<and> e_brands (extract_all excerpt M (ustr ''Running Shoe'')) = [ustr ''running shoe'']
        \<and> 1 \<in> claimed_by
              (m_brands (run_passes M (clean_phrase excerpt (stopwords M) (ustr ''Running Shoe'')))))"
  by (simp add: shoe_table_def string_eval load_eval index_eval match_eval)

lemma try_candidates_start:
  "try_candidates words i b = Some (m, cl) \<Longrightarrow> fst (snd m) = i"
proof (induction b)
  case Nil
  then show ?case by simp
next
  case (Cons a b)
  obtain kw r where a: "a = (kw, r)" by (cases a)
  from Cons.prems have "fst (snd m) = i \<or> try_candidates words i b = Some (m, cl)"
    unfolding a by (auto simp: Let_def split: if_splits)
  with Cons.IH show ?case by auto
qed

lemma match_loop_starts:
  "m \<in> set (fst (match_loop idx words ps ms used))
     \<Longrightarrow> m \<in> set ms \<or> (fst (snd m) \<in> set ps \<and> fst (snd m) \<notin> used)"
proof (induction ps arbitrary: ms used)
  case Nil
  then show ?case by simp
next
  case (Cons i ps)
  show ?case
  proof (cases "i \<in> used")
    case True
    with Cons.prems have "m \<in> set (fst (match_loop idx words ps ms used))" by simp
    from Cons.IH [OF this] show ?thesis by auto
  next
    case False
    show ?thesis
    proof (cases "idx (words ! i)")
      case None
      with False Cons.prems have "m \<in> set (fst (match_loop idx words ps ms used))" by simp
      from Cons.IH [OF this] show ?thesis by auto
    next
      case (Some b)
      show ?thesis
      proof (cases "try_candidates words i b")
        case None
        with False Some Cons.prems have "m \<in> set (fst (match_loop idx words ps ms used))"
          by simp
        from Cons.IH [OF this] show ?thesis by auto
      next
        case found: (Some mc)
        obtain m0 cl where mc: "mc = (m0, cl)" by (cases mc)
        from found mc have st: "fst (snd m0) = i" using try_candidates_start by blast
        from False Some found mc Cons.prems
        have "m \<in> set (fst (match_loop idx words ps (ms @ [m0]) (used \<union> set cl)))" by simp
        from Cons.IH [OF this] st False show ?thesis by auto
      qed
    qed
  qed
qed

text \<open>
  What the shared used set does ensure: a later pass never starts a match at a position
  in the used set it is given, so no brand match starts at a position that the keyword
  pass has claimed.
\<close>

lemma later_pass_starts_unclaimed:
  "m \<in> set (m_brands (run_passes M p))
     \<Longrightarrow> fst (snd m) \<notin> snd (match_from_index p (keyword_index M) {})"
proof -
  assume "m \<in> set (m_brands (run_passes M p))"
  then have "m \<in> set (fst (match_from_index p (brand_index M)
      (snd (match_from_index p (keyword_index M) {}))))"
    by (simp add: run_passes_def Let_def split_beta)
  then show ?thesis
    using match_loop_starts [of m "brand_index M" "split p" "[0 ..< length (split p)]" "[]"
        "snd (match_from_index p (keyword_index M) {})"]
    by (simp add: match_from_index_def Let_def)
qed

section \<open>The rank limit\<close>

text \<open>
  C10 (every rank limit that is not a positive integer is ignored without an error),
  evaluated on the rank limit made of the one character U+00B2, superscript two.
  \<open>isdigit\<close> accepts it, \<open>int\<close> does not, and the constructor fails with
  \<open>ValueError\<close>.
\<close>

theorem rank_limit_superscript_two:
  "isdigit excerpt [178]
   \<and> new_matcher excerpt \<lparr>opt_rank_limit = Some [178], opt_custom_stopwords = None\<rparr> shoe_table
       = Inl ValueError"
  by (simp add: string_eval load_eval)

text \<open>
  What does hold of the rank limit: a value that is absent, empty or not made of digits
  only is ignored, as is one that denotes zero, and all rows are then processed.
\<close>

lemma rank_limit_not_digits:
  "opt_rank_limit opts = None \<or> opt_rank_limit opts = Some s \<and> \<not> isdigit U s
     \<Longrightarrow> parse_rank_limit U opts = Inr None"
  by (auto simp: parse_rank_limit_def)

lemma rank_limit_unset_or_zero:
  "rank_limit M = None \<or> rank_limit M = Some 0 \<Longrightarrow> apply_rank_limit M rows = rows"
  by (auto simp: apply_rank_limit_def)

lemma rank_limit_examples:
  "\<not> isdigit excerpt (ustr ''-3'')" "\<not> isdigit excerpt (ustr ''2.5'')"
  "\<not> isdigit excerpt (ustr ''abc'')" "\<not> isdigit excerpt []"
  "parse_rank_limit excerpt \<lparr>opt_rank_limit = Some (ustr ''0''), opt_custom_stopwords = None\<rparr>
     = Inr (Some 0)"
  "parse_rank_limit excerpt \<lparr>opt_rank_limit = Some (ustr ''2''), opt_custom_stopwords = None\<rparr>
     = Inr (Some 2)"
  by (simp_all add: string_eval load_eval)

section \<open>Column mapping\<close>

lemma header_role_assigned: "header_role U c = Some r \<longleftrightarrow> assigned U r c"
  by (cases r) (auto simp: header_role_def assigned_def role_test_def)

lemma map_columns_last:
  "map_columns U hs m r =
     (if filter (\<lambda>c. header_role U c = Some r) hs = [] then m r
      else Some (last (filter (\<lambda>c. header_role U c = Some r) hs)))"
proof (induction hs arbitrary: m)
  case Nil
  then show ?case by simp
next
  case (Cons c cs)
  show ?case
  proof (cases "header_role U c")
    case None
    then show ?thesis using Cons.IH [of m] by simp
  next
    case (Some r')
    have "map_columns U (c # cs) m r = map_columns U cs (m(r' \<mapsto> c)) r"
      using Some by simp
    also have "\<dots> =
        (if filter (\<lambda>c. header_role U c = Some r) cs = [] then (m(r' \<mapsto> c)) r
         else Some (last (filter (\<lambda>c. header_role U c = Some r) cs)))"
      by (rule Cons.IH)
    finally show ?thesis using Some by simp
  qed
qed

lemma last_filter_split:
  "filter P hs \<noteq> [] \<Longrightarrow>
     \<exists>pre post. hs = pre @ last (filter P hs) # post \<and> P (last (filter P hs))
        \<and> (\<forall>c' \<in> set post. \<not> P c')"
proof (induction hs rule: rev_induct)
  case Nil
  then show ?case by simp
next
  case (snoc x xs)
  show ?case
  proof (cases "P x")
    case True
    then have "xs @ [x] = xs @ last (filter P (xs @ [x])) # [] \<and> P (last (filter P (xs @ [x])))"
      by simp
    then show ?thesis by (metis empty_iff empty_set)
  next
    case False
    with snoc.prems have ne: "filter P xs \<noteq> []" by simp
    from snoc.IH [OF ne] obtain pre post where
      d: "xs = pre @ last (filter P xs) # post" "P (last (filter P xs))" "\<forall>c' \<in> set post. \<not> P c'"
      by blast
    from d(1) have "xs @ [x] = pre @ last (filter P xs) # (post @ [x])" by simp
    moreover have "\<forall>c' \<in> set (post @ [x]). \<not> P c'" using d(3) False by simp
    moreover have "filter P (xs @ [x]) = filter P xs" using False by simp
    ultimately show ?thesis using d(2) by metis
  qed
qed

lemma last_filter_decomp:
  "(filter P hs \<noteq> [] \<and> last (filter P hs) = c)
     \<longleftrightarrow> (\<exists>pre post. hs = pre @ c # post \<and> P c \<and> (\<forall>c' \<in> set post. \<not> P c'))"
proof
  assume a: "filter P hs \<noteq> [] \<and> last (filter P hs) = c"
  with last_filter_split [of P hs]
  show "\<exists>pre post. hs = pre @ c # post \<and> P c \<and> (\<forall>c' \<in> set post. \<not> P c')"
    by blast
next
  assume "\<exists>pre post. hs = pre @ c # post \<and> P c \<and> (\<forall>c' \<in> set post. \<not> P c')"
  then obtain pre post where d: "hs = pre @ c # post" "P c" "\<forall>c' \<in> set post. \<not> P c'" by blast
  then have "filter P post = []" by (simp add: filter_empty_conv)
  with d show "filter P hs \<noteq> [] \<and> last (filter P hs) = c" by simp
qed

text \<open>
  C5 as stated (a role is mapped to the first header that contains its substring) fails:
  of the headers "keyword" and "keywords" the keyword role is mapped to the second.
\<close>

theorem col_map_first_header_counterexample:
  "map_columns excerpt [ustr ''keyword'', ustr ''keywords''] Map.empty Keyword
     = Some (ustr ''keywords'')
   \<and> role_test excerpt Keyword (ustr ''keyword'')
   \<and> ustr ''keywords'' \<noteq> ustr ''keyword''"
  by (simp add: string_eval load_eval role_test_def)

text \<open>
  C5, amended: a header is assigned to the first role, in the order Keyword, Type,
  Gender, Size, Special Age, Brand, whose substring it contains, and each role is mapped
  to the last header in column order that is assigned to it.
\<close>

theorem col_map_last_header:
  "map_columns U hs Map.empty r = Some c \<longleftrightarrow>
     (\<exists>pre post. hs = pre @ c # post \<and> assigned U r c \<and> (\<forall>c' \<in> set post. \<not> assigned U r c'))"
proof -
  have "map_columns U hs Map.empty r = Some c \<longleftrightarrow>
      (filter (\<lambda>c. header_role U c = Some r) hs \<noteq> []
       \<and> last (filter (\<lambda>c. header_role U c = Some r) hs) = c)"
    by (simp add: map_columns_last)
  also have "\<dots> \<longleftrightarrow> (\<exists>pre post. hs = pre @ c # post \<and> header_role U c = Some r
       \<and> (\<forall>c' \<in> set post. \<not> header_role U c' = Some r))"
    by (rule last_filter_decomp)
  finally show ?thesis by (simp add: header_role_assigned)
qed


theorem col_map_last_header_witness:
  "map_columns excerpt [ustr ''keyword'', ustr ''keywords''] Map.empty Keyword
     = Some (ustr ''keywords'')
   \<and> (\<exists>pre post. [ustr ''keyword'', ustr ''keywords''] = pre @ ustr ''keywords'' # post
         \<and> assigned excerpt Keyword (ustr ''keywords'')
         \<and> (\<forall>c' \<in> set post. \<not> assigned excerpt Keyword c'))"
proof -
  have m: "map_columns excerpt [ustr ''keyword'', ustr ''keywords''] Map.empty Keyword
     = Some (ustr ''keywords'')"
    by (simp add: string_eval load_eval)
  with col_map_last_header [of excerpt "[ustr ''keyword'', ustr ''keywords'']" Keyword
      "ustr ''keywords''"]
  show ?thesis by blast
qed

section \<open>Unmapped roles\<close>

lemma select_column_distinct:
  "distinct (map fst df) \<Longrightarrow> (l, cells) \<in> set df \<Longrightarrow> select_column df l = Inr cells"
proof -
  assume d: "distinct (map fst df)" and m: "(l, cells) \<in> set df"
  have "filter (\<lambda>col. fst col = l) df = [(l, cells)]" using d m
  proof (induction df)
    case Nil
    then show ?case by simp
  next
    case (Cons a df)
    show ?case
    proof (cases "a = (l, cells)")
      case True
      with Cons.prems have "\<forall>col \<in> set df. fst col \<noteq> l" by force
      then have "filter (\<lambda>col. fst col = l) df = []" by (simp add: filter_empty_conv)
      with True show ?thesis by simp
    next
      case False
      with Cons.prems have m': "(l, cells) \<in> set df" by simp
      then have "l \<in> fst ` set df" by force
      with Cons.prems have "fst a \<noteq> l" by auto
      with Cons.IH m' Cons.prems show ?thesis by simp
    qed
  qed
  then show ?thesis by (simp add: select_column_def)
qed

lemma extract_lists_Inr:
  assumes "normalize_columns raw = c # cs"
    and "select_column (c # cs)
           (case map_columns U (map fst (c # cs)) Map.empty Keyword of
              None \<Rightarrow> fst c | Some l \<Rightarrow> l) = Inr kws"
    and "role_list (c # cs) (map_columns U (map fst (c # cs)) Map.empty) Type = Inr tys"
    and "role_list (c # cs) (map_columns U (map fst (c # cs)) Map.empty) Gender = Inr gens"
    and "role_list (c # cs) (map_columns U (map fst (c # cs)) Map.empty) Size = Inr szs"
    and "role_list (c # cs) (map_columns U (map fst (c # cs)) Map.empty) Special_Age = Inr ags"
    and "role_list (c # cs) (map_columns U (map fst (c # cs)) Map.empty) Brand = Inr brs"
  shows "extract_lists U raw = Inr \<lparr>keyword_list = kws, type_list = tys, gender_list = gens,
      size_list = szs, age_list = ags, brand_list = brs\<rparr>"
  unfolding extract_lists_def Let_def
  by (simp only: assms list.case sum.case)

lemma map_columns_range:
  "map_columns U hs Map.empty r = Some c \<Longrightarrow> c \<in> set hs"
proof -
  assume a: "map_columns U hs Map.empty r = Some c"
  then have ne: "filter (\<lambda>c. header_role U c = Some r) hs \<noteq> []"
    and l: "last (filter (\<lambda>c. header_role U c = Some r) hs) = c"
    by (simp_all add: map_columns_last split: if_splits)
  from ne have "last (filter (\<lambda>c. header_role U c = Some r) hs)
      \<in> set (filter (\<lambda>c. header_role U c = Some r) hs)"
    by (rule last_in_set)
  with l show ?thesis by simp
qed

lemma role_list_total:
  assumes "distinct (map fst df)"
  shows "\<exists>cells. role_list df (map_columns U (map fst df) Map.empty) r = Inr cells
           \<and> (map_columns U (map fst df) Map.empty r = None \<longrightarrow> cells = [])"
proof (cases "map_columns U (map fst df) Map.empty r")
  case None
  then show ?thesis by (simp add: role_list_def)
next
  case (Some l)
  then have "l \<in> set (map fst df)" by (rule map_columns_range)
  then obtain cells where "(l, cells) \<in> set df" by auto
  with assms have "select_column df l = Inr cells" by (rule select_column_distinct)
  with Some show ?thesis by (simp add: role_list_def)
qed

text \<open>
  C4 as stated (the first column is the fallback of every unmapped role) fails: in a
  table whose only header names no role, the keyword list is the first column and the
  brand list is empty.
\<close>

theorem first_column_fallback_counterexample:
  "map_columns excerpt (map fst (normalize_columns name_table)) Map.empty Brand = None
   \<and> extract_lists excerpt name_table =
       Inr \<lparr>keyword_list = [ustr ''shoe''], type_list = [], gender_list = [], size_list = [],
            age_list = [], brand_list = []\<rparr>"
  by (simp add: name_table_def string_eval load_eval)

text \<open>
  C4, amended: for a table with at least one column and no two columns of the same
  normalised header, loading succeeds; if the scan leaves the Keyword role unmatched the
  keyword list is the first column, and every other role the scan leaves unmatched has
  the empty list.
\<close>

theorem unmapped_role_lists:
  assumes "raw \<noteq> []"
    and "distinct (map fst (normalize_columns raw))"
  shows "\<exists>fls. extract_lists U raw = Inr fls
      \<and> (map_columns U (map fst (normalize_columns raw)) Map.empty Keyword = None
            \<longrightarrow> keyword_list fls = snd (hd raw))
      \<and> (map_columns U (map fst (normalize_columns raw)) Map.empty Type = None
            \<longrightarrow> type_list fls = [])
      \<and> (map_columns U (map fst (normalize_columns raw)) Map.empty Gender = None
            \<longrightarrow> gender_list fls = [])
      \<and> (map_columns U (map fst (normalize_columns raw)) Map.empty Size = None
            \<longrightarrow> size_list fls = [])
      \<and> (map_columns U (map fst (normalize_columns raw)) Map.empty Special_Age = None
            \<longrightarrow> age_list fls = [])
      \<and> (map_columns U (map fst (normalize_columns raw)) Map.empty Brand = None
            \<longrightarrow> brand_list fls = [])"
proof -
  from assms(1) obtain c0 rest where raw: "raw = c0 # rest" by (cases raw) auto
  define c where "c = (normalize_header (fst c0), snd c0)"
  define cs where "cs = normalize_columns rest"
  have df: "normalize_columns raw = c # cs"
    by (simp add: raw normalize_columns_def c_def cs_def)
  have dist: "distinct (map fst (c # cs))" using assms(2) df by simp
  have hd: "snd (hd raw) = snd c" by (simp add: raw c_def)
  define cm where "cm = map_columns U (map fst (c # cs)) Map.empty"
  have "\<exists>kws. select_column (c # cs) (case cm Keyword of None \<Rightarrow> fst c | Some l \<Rightarrow> l) = Inr kws
      \<and> (cm Keyword = None \<longrightarrow> kws = snd c)"
  proof (cases "cm Keyword")
    case None
    have "(fst c, snd c) \<in> set (c # cs)" by simp
    with dist have "select_column (c # cs) (fst c) = Inr (snd c)"
      by (rule select_column_distinct)
    with None show ?thesis by simp
  next
    case (Some l)
    then have "l \<in> set (map fst (c # cs))" unfolding cm_def by (rule map_columns_range)
    then obtain col where "col \<in> set (c # cs)" "fst col = l" by (auto simp only: set_map)
    then have "(l, snd col) \<in> set (c # cs)" by (metis prod.collapse)
    with dist have "select_column (c # cs) l = Inr (snd col)" by (rule select_column_distinct)
    with Some show ?thesis by simp
  qed
  then obtain kws where kws0: "select_column (c # cs) (case cm Keyword of None \<Rightarrow> fst c | Some l \<Rightarrow> l) = Inr kws
      \<and> (cm Keyword = None \<longrightarrow> kws = snd c)" ..
  note kws = conjunct1 [OF kws0] conjunct2 [OF kws0]
  from role_list_total [OF dist, of U Type, folded cm_def] obtain tys where
    tys0: "role_list (c # cs) cm Type = Inr tys \<and> (cm Type = None \<longrightarrow> tys = [])" ..
  note tys = conjunct1 [OF tys0] conjunct2 [OF tys0]
  from role_list_total [OF dist, of U Gender, folded cm_def] obtain gens where
    gens0: "role_list (c # cs) cm Gender = Inr gens \<and> (cm Gender = None \<longrightarrow> gens = [])" ..
  note gens = conjunct1 [OF gens0] conjunct2 [OF gens0]
  from role_list_total [OF dist, of U Size, folded cm_def] obtain szs where
    szs0: "role_list (c # cs) cm Size = Inr szs \<and> (cm Size = None \<longrightarrow> szs = [])" ..
  note szs = conjunct1 [OF szs0] conjunct2 [OF szs0]
  from role_list_total [OF dist, of U Special_Age, folded cm_def] obtain ags where
    ags0: "role_list (c # cs) cm Special_Age = Inr ags \<and> (cm Special_Age = None \<longrightarrow> ags = [])" ..
  note ags = conjunct1 [OF ags0] conjunct2 [OF ags0]
  from role_list_total [OF dist, of U Brand, folded cm_def] obtain brs where
    brs0: "role_list (c # cs) cm Brand = Inr brs \<and> (cm Brand = None \<longrightarrow> brs = [])" ..
  note brs = conjunct1 [OF brs0] conjunct2 [OF brs0]
  have ex: "extract_lists U raw = Inr \<lparr>keyword_list = kws, type_list = tys, gender_list = gens,
      size_list = szs, age_list = ags, brand_list = brs\<rparr>"
    using df kws(1) [unfolded cm_def] tys(1) [unfolded cm_def] gens(1) [unfolded cm_def]
      szs(1) [unfolded cm_def] ags(1) [unfolded cm_def] brs(1) [unfolded cm_def]
    by (rule extract_lists_Inr)
  have sel: "keyword_list \<lparr>keyword_list = kws, type_list = tys, gender_list = gens,
      size_list = szs, age_list = ags, brand_list = brs\<rparr> = kws"
    "type_list \<lparr>keyword_list = kws, type_list = tys, gender_list = gens,
      size_list = szs, age_list = ags, brand_list = brs\<rparr> = tys"
    "gender_list \<lparr>keyword_list = kws, type_list = tys, gender_list = gens,
      size_list = szs, age_list = ags, brand_list = brs\<rparr> = gens"
    "size_list \<lparr>keyword_list = kws, type_list = tys, gender_list = gens,
      size_list = szs, age_list = ags, brand_list = brs\<rparr> = szs"
    "age_list \<lparr>keyword_list = kws, type_list = tys, gender_list = gens,
      size_list = szs, age_list = ags, brand_list = brs\<rparr> = ags"
    "brand_list \<lparr>keyword_list = kws, type_list = tys, gender_list = gens,
      size_list = szs, age_list = ags, brand_list = brs\<rparr> = brs"
    by simp_all
  show ?thesis
    unfolding df hd ex cm_def [symmetric]
    apply (rule exI [of _ "\<lparr>keyword_list = kws, type_list = tys, gender_list = gens,
      size_list = szs, age_list = ags, brand_list = brs\<rparr>"])
    unfolding sel
    using kws(2) tys(2) gens(2) szs(2) ags(2) brs(2) by blast
qed


theorem unmapped_role_lists_witness:
  "name_table \<noteq> [] \<and> distinct (map fst (normalize_columns name_table))
   \<and> (\<exists>fls. extract_lists excerpt name_table = Inr fls
         \<and> keyword_list fls = [ustr ''shoe''] \<and> type_list fls = [] \<and> gender_list fls = []
         \<and> size_list fls = [] \<and> age_list fls = [] \<and> brand_list fls = [])"
proof -
  have h1: "name_table \<noteq> []" by (simp add: name_table_def)
  have h2: "distinct (map fst (normalize_columns name_table))"
    by (simp add: name_table_def normalize_columns_def)
  have n: "map_columns excerpt (map fst (normalize_columns name_table)) Map.empty r = None" for r
    by (simp add: name_table_def string_eval load_eval)
  have hd: "snd (hd name_table) = [ustr ''shoe'']" by (simp add: name_table_def)
  from unmapped_role_lists [OF h1 h2, of excerpt] show ?thesis
    unfolding n hd using h1 h2 by simp
qed

section \<open>Phrases without content\<close>


text \<open>
  C8: a phrase that is empty, or whose text cleans to the empty string, is extracted to
  six empty field sequences and no uncovered words; there is no error branch, and the
  batch loop appends the row of that phrase and goes on with the rows that follow. A
  missing cell is treated as the empty phrase.
\<close>

theorem empty_phrase_degrades:
  assumes "clean_phrase U (stopwords M) phrase = []"
  shows "extract_all U M phrase =
           \<lparr>e_keywords = [], e_brands = [], e_types = [], e_sizes = [], e_ages = [],
            e_genders = [], uncovered_words = []\<rparr>
       \<and> extract_all U M [] =
           \<lparr>e_keywords = [], e_brands = [], e_types = [], e_sizes = [], e_ages = [],
            e_genders = [], uncovered_words = []\<rparr>
       \<and> process_rows U M n idx (Some phrase # rest) =
           (make_row phrase empty_extraction # fst (process_rows U M n (Suc idx) rest),
            progress_value idx n # snd (process_rows U M n (Suc idx) rest))
       \<and> process_rows U M n idx (None # rest) =
           (make_row [] empty_extraction # fst (process_rows U M n (Suc idx) rest),
            progress_value idx n # snd (process_rows U M n (Suc idx) rest))"
proof -
  have a: "extract_all U M phrase = empty_extraction"
    using assms by (simp add: extract_all_def)
  have b: "extract_all U M [] = empty_extraction"
    by (simp add: extract_all_def clean_phrase_def)
  show ?thesis
    using a b by (simp add: empty_extraction_def split_beta)
qed

theorem empty_phrase_degrades_witness:
  "clean_phrase excerpt (stopwords shoe_matcher) (ustr ''The x, of - !!'') = []
   \<and> extract_all excerpt shoe_matcher (ustr ''The x, of - !!'') =
           \<lparr>e_keywords = [], e_brands = [], e_types = [], e_sizes = [], e_ages = [],
            e_genders = [], uncovered_words = []\<rparr>
   \<and> fst (process_rows excerpt shoe_matcher 2 0 [Some (ustr ''The x, of - !!''), Some (ustr ''sock'')])
       = [make_row (ustr ''The x, of - !!'') empty_extraction,
          make_row (ustr ''sock'') (empty_extraction\<lparr>e_keywords := [ustr ''sock'']\<rparr>)]"
proof -
  have h: "clean_phrase excerpt (stopwords shoe_matcher) (ustr ''The x, of - !!'') = []"
    by (simp add: shoe_matcher_def string_eval)
  have r: "extract_all excerpt shoe_matcher (ustr ''sock'') = empty_extraction\<lparr>e_keywords := [ustr ''sock'']\<rparr>"
    by (simp add: shoe_matcher_def string_eval index_eval match_eval)
  from empty_phrase_degrades [OF h, of 2 0 "[Some (ustr ''sock'')]"] h r
  show ?thesis by (simp add: Let_def split_beta empty_extraction_def)
qed

section \<open>Longest match first\<close>














lemma key_less_asym: "key_less a b \<Longrightarrow> \<not> key_less b a"
  by (auto simp: key_less_def)






section \<open>Cleaning a cleaned phrase\<close>

lemma split_acc_token:
  "\<forall>c \<in> set t. \<not> isspace c \<Longrightarrow> split_acc cur (t @ rest) = split_acc (cur @ t) rest"
  by (induction t arbitrary: cur) simp_all

lemma isspace_32: "isspace 32"
  by (simp add: isspace_def)

lemma split_acc_tokens:
  "\<forall>c \<in> set cur. \<not> isspace c \<Longrightarrow> t \<in> set (split_acc cur s)
     \<Longrightarrow> t \<noteq> [] \<and> (\<forall>c \<in> set t. \<not> isspace c)"
proof (induction s arbitrary: cur)
  case Nil
  then show ?case by (auto split: if_splits)
next
  case (Cons a s)
  show ?case
  proof (cases "isspace a")
    case True
    have e: "\<forall>c \<in> set ([]::ustring). \<not> isspace c" by simp
    from Cons.prems(2) True have "t = cur \<and> cur \<noteq> [] \<or> t \<in> set (split_acc [] s)"
      by (auto split: if_splits)
    then show ?thesis
    proof
      assume "t = cur \<and> cur \<noteq> []"
      with Cons.prems(1) show ?thesis by simp
    next
      assume "t \<in> set (split_acc [] s)"
      with e show ?thesis by (rule Cons.IH)
    qed
  next
    case False
    with Cons.prems(1) have n: "\<forall>c \<in> set (cur @ [a]). \<not> isspace c" by simp
    from Cons.prems(2) False have "t \<in> set (split_acc (cur @ [a]) s)" by simp
    with n show ?thesis by (rule Cons.IH)
  qed
qed

lemma split_tokens: "t \<in> set (split s) \<Longrightarrow> t \<noteq> [] \<and> (\<forall>c \<in> set t. \<not> isspace c)"
  using split_acc_tokens [of "[]" t s] by (simp add: split_def)

lemma split_join:
  "\<forall>t \<in> set ts. t \<noteq> [] \<and> (\<forall>c \<in> set t. \<not> isspace c) \<Longrightarrow> split (join [32] ts) = ts"
proof (induction ts)
  case Nil
  then show ?case by (simp add: split_def)
next
  case (Cons x ts)
  then have x: "x \<noteq> []" "\<forall>c \<in> set x. \<not> isspace c" by simp_all
  show ?case
  proof (cases ts)
    case Nil
    have "split_acc [] (x @ []) = split_acc ([] @ x) []" using x(2) by (rule split_acc_token)
    with x(1) Nil show ?thesis by (simp add: split_def)
  next
    case (Cons y ys)
    with Cons.IH Cons.prems have ih: "split_acc [] (join [32] (y # ys)) = y # ys"
      by (simp add: split_def)
    have "split_acc [] (x @ 32 # join [32] (y # ys)) = split_acc ([] @ x) (32 # join [32] (y # ys))"
      using x(2) by (rule split_acc_token)
    also have "\<dots> = x # split_acc [] (join [32] (y # ys))"
      using x(1) isspace_32 by simp
    finally show ?thesis using ih Cons by (simp add: split_def)
  qed
qed

lemma settled_idempotent:
  assumes "settled U (clean_phrase U sw x)"
  shows "clean_phrase U sw (clean_phrase U sw x) = clean_phrase U sw x"
proof (cases "clean_phrase U sw x = []")
  case True
  then show ?thesis by (simp add: clean_phrase_def)
next
  case False
  define ws where "ws = filter (\<lambda>w. w \<notin> sw \<and> length w > 1)
      (split (str_lower U (re_sub_space U (strQ2B x))))"
  define y where "y = clean_phrase U sw x"
  have y: "y = join [32] ws"
  proof (cases "x = []")
    case True
    with False show ?thesis by (simp add: clean_phrase_def)
  next
    case False
    then show ?thesis by (simp add: y_def ws_def clean_phrase_def Let_def)
  qed
  from False have ne: "y \<noteq> []" by (simp add: y_def)
  have tok: "\<forall>t \<in> set ws. t \<noteq> [] \<and> (\<forall>c \<in> set t. \<not> isspace c)"
    using split_tokens by (auto simp: ws_def)
  have sp: "split y = ws" unfolding y using tok by (rule split_join)
  from assms have "map fold_char y = y" "map (\<lambda>c. if kept_char U c then c else 32) y = y"
      "str_lower U y = y"
    by (auto simp: settled_def y_def [symmetric] map_idI)
  then have norm: "str_lower U (re_sub_space U (strQ2B y)) = y"
    by (simp add: strQ2B_def re_sub_space_def)
  have "filter (\<lambda>w. w \<notin> sw \<and> length w > 1) ws = ws" by (simp add: ws_def)
  with norm sp ne have "clean_phrase U sw y = join [32] ws"
    by (simp add: clean_phrase_def)
  with y show ?thesis by (simp add: y_def)
qed

text \<open>
  The characters of a cleaned phrase come from the lower-cased text or are the joining
  space.
\<close>

lemma split_acc_chars:
  "t \<in> set (split_acc cur s) \<Longrightarrow> set t \<subseteq> set cur \<union> set s"
proof (induction s arbitrary: cur)
  case Nil
  then show ?case by (auto split: if_splits)
next
  case (Cons a s)
  show ?case
  proof (cases "isspace a")
    case True
    with Cons.prems have "t = cur \<or> t \<in> set (split_acc [] s)" by (auto split: if_splits)
    then show ?thesis using Cons.IH [of "[]"] by auto
  next
    case False
    with Cons.prems have "t \<in> set (split_acc (cur @ [a]) s)" by simp
    from Cons.IH [OF this] show ?thesis by auto
  qed
qed

lemma split_chars: "t \<in> set (split s) \<Longrightarrow> set t \<subseteq> set s"
  using split_acc_chars [of t "[]" s] by (simp add: split_def)

lemma join_chars:
  "c \<in> set (join sep ts) \<Longrightarrow> c \<in> set sep \<or> (\<exists>t \<in> set ts. c \<in> set t)"
  by (induction sep ts rule: join.induct) auto

lemma good_char_32: "good_char U 32"
  by (simp add: good_char_def kept_char_def isspace_def fold_char_def ascii_lower_def)

text \<open>Width folding takes plain text to ASCII characters and CJK ideographs.\<close>

lemma folded_plain:
  assumes "plain_text x" and "c \<in> set (strQ2B x)"
  shows "(c < 128 \<or> cjk c) \<and> fold_char c = c"
proof -
  from assms(2) obtain c0 where c0: "c0 \<in> set x" "c = fold_char c0" by (auto simp: strQ2B_def)
  with assms(1) have "c0 < 128 \<or> (65281 \<le> c0 \<and> c0 \<le> 65374) \<or> c0 = 12288 \<or> cjk c0"
    by (simp add: plain_text_def)
  then show ?thesis unfolding c0(2) by (auto simp: fold_char_def cjk_def)
qed

lemma lowered_good:
  assumes "plain_tables U" and "c < 128 \<or> cjk c" and "kept_char U c" and "fold_char c = c"
  shows "good_char U (ascii_lower c)"
proof (cases "65 \<le> c \<and> c \<le> 90")
  case True
  then have l: "ascii_lower c = c + 32" by (simp add: ascii_lower_def)
  from True have "c + 32 < 128" "ascii_alnum (c + 32)" by (simp_all add: ascii_alnum_def)
  with assms(1) have "chr_isalnum U (c + 32)" by (simp add: plain_tables_def)
  with True show ?thesis
    unfolding l by (simp add: good_char_def kept_char_def fold_char_def ascii_lower_def)
next
  case False
  then have "ascii_lower c = c" by (auto simp: ascii_lower_def)
  with assms show ?thesis by (simp add: good_char_def)
qed

lemma cleaned_good:
  assumes "plain_tables U" and "plain_text x" and "c \<in> set (clean_phrase U sw x)"
  shows "good_char U c"
proof -
  from assms(3) have ne: "x \<noteq> []" by (auto simp: clean_phrase_def)
  define s2 where "s2 = re_sub_space U (strQ2B x)"
  have s2: "(d < 128 \<or> cjk d) \<and> kept_char U d \<and> fold_char d = d" if "d \<in> set s2" for d
  proof -
    from that obtain d0 where d0: "d0 \<in> set (strQ2B x)"
        "d = (if kept_char U d0 then d0 else 32)"
      by (auto simp: s2_def re_sub_space_def)
    show ?thesis
    proof (cases "kept_char U d0")
      case True
      with d0 folded_plain [OF assms(2) d0(1)] show ?thesis by simp
    next
      case False
      with d0 have "d = 32" by simp
      then show ?thesis using good_char_32 [of U] by (simp add: good_char_def)
    qed
  qed
  then have cls: "\<forall>d \<in> set s2. d < 128 \<or> cjk d" by blast
  with assms(1) have low: "str_lower U s2 = map ascii_lower s2" by (simp add: plain_tables_def)
  have z: "good_char U d" if "d \<in> set (str_lower U s2)" for d
  proof -
    from that obtain d0 where "d0 \<in> set s2" "d = ascii_lower d0" unfolding low by auto
    with s2 [of d0] lowered_good [OF assms(1), of d0] show ?thesis by simp
  qed
  from assms(3) ne have "c \<in> set (join [32]
      (filter (\<lambda>w. w \<notin> sw \<and> length w > 1) (split (str_lower U s2))))"
    by (simp add: clean_phrase_def Let_def s2_def)
  from join_chars [OF this] show ?thesis
  proof
    assume "c \<in> set [32]"
    then show ?thesis using good_char_32 by simp
  next
    assume "\<exists>t \<in> set (filter (\<lambda>w. w \<notin> sw \<and> length w > 1) (split (str_lower U s2))). c \<in> set t"
    then obtain t where "t \<in> set (split (str_lower U s2))" "c \<in> set t" by auto
    with split_chars have "c \<in> set (str_lower U s2)" by blast
    then show ?thesis by (rule z)
  qed
qed

lemma cleaned_settled:
  assumes "plain_tables U" and "plain_text x"
  shows "settled U (clean_phrase U sw x)"
proof -
  have g: "\<forall>c \<in> set (clean_phrase U sw x). good_char U c"
    using cleaned_good [OF assms] by blast
  then have "\<forall>c \<in> set (clean_phrase U sw x). c < 128 \<or> cjk c" by (simp add: good_char_def)
  with assms(1) have "str_lower U (clean_phrase U sw x) = map ascii_lower (clean_phrase U sw x)"
    by (simp add: plain_tables_def)
  also have "\<dots> = clean_phrase U sw x" using g by (simp add: good_char_def map_idI)
  finally show ?thesis using g by (simp add: settled_def good_char_def)
qed

lemma plain_tables_excerpt: "plain_tables excerpt"
proof -
  have "concat (map lower_char s) = map ascii_lower s" if "\<forall>c \<in> set s. c < 128 \<or> cjk c" for s
    using that by (induction s) (auto simp: lower_char_def ascii_lower_def cjk_def)
  moreover have "chr_isalnum excerpt c \<longleftrightarrow> ascii_alnum c" if "c < 128" for c
    using that by (auto simp: excerpt_def ascii_alnum_def ascii_digit_def)
  ultimately show ?thesis by (simp add: plain_tables_def excerpt_def)
qed

text \<open>
  C7 as stated (cleaning is idempotent on every string) fails. U+0130 is a word
  character and lowers to \<open>i\<close> followed by the combining mark U+0307, which is not a
  word character: the first cleaning keeps the word whole, the second replaces the mark
  by a space and drops the one-letter token before it.
\<close>

theorem clean_phrase_idempotent_counterexample:
  "clean_phrase excerpt DEFAULT_STOPWORDS (304 # ustr ''stanbul'') = 105 # 775 # ustr ''stanbul''
   \<and> clean_phrase excerpt DEFAULT_STOPWORDS
        (clean_phrase excerpt DEFAULT_STOPWORDS (304 # ustr ''stanbul'')) = ustr ''stanbul''"
  by (simp add: string_eval)

text \<open>
  C7, amended: cleaning a cleaned phrase changes nothing whenever the cleaned phrase is
  settled, that is, lower-casing has produced no character that the pattern strips or
  that width folding changes, and the cleaned phrase is its own lower-case form. With
  character tables that treat ASCII characters and CJK ideographs as Python's do, the
  cleaned form of every plain text (ASCII characters, full-width forms, the ideographic
  space and CJK ideographs) is settled, so cleaning is idempotent on plain text.
\<close>

theorem clean_phrase_idempotent:
  "(settled U (clean_phrase U sw x)
      \<longrightarrow> clean_phrase U sw (clean_phrase U sw x) = clean_phrase U sw x)
   \<and> (plain_tables U \<and> plain_text x
      \<longrightarrow> settled U (clean_phrase U sw x)
        \<and> clean_phrase U sw (clean_phrase U sw x) = clean_phrase U sw x)"
proof (intro conjI impI)
  assume "settled U (clean_phrase U sw x)"
  then show "clean_phrase U sw (clean_phrase U sw x) = clean_phrase U sw x"
    by (rule settled_idempotent)
next
  assume "plain_tables U \<and> plain_text x"
  then show s: "settled U (clean_phrase U sw x)" by (simp add: cleaned_settled)
  then show "clean_phrase U sw (clean_phrase U sw x) = clean_phrase U sw x"
    by (rule settled_idempotent)
qed

theorem clean_phrase_idempotent_witness:
  "plain_tables excerpt \<and> plain_text mixed_phrase
   \<and> settled excerpt (clean_phrase excerpt DEFAULT_STOPWORDS mixed_phrase)
   \<and> clean_phrase excerpt DEFAULT_STOPWORDS mixed_phrase
       = ustr ''running_shoe 42 qa '' @ [36305, 27493]
   \<and> clean_phrase excerpt DEFAULT_STOPWORDS (clean_phrase excerpt DEFAULT_STOPWORDS mixed_phrase)
       = clean_phrase excerpt DEFAULT_STOPWORDS mixed_phrase"
proof -
  have v: "clean_phrase excerpt DEFAULT_STOPWORDS mixed_phrase
       = ustr ''running_shoe 42 qa '' @ [36305, 27493]"
    by (simp add: mixed_phrase_def string_eval)
  have p: "plain_text mixed_phrase"
    by (simp add: plain_text_def mixed_phrase_def ustr_def cjk_def)
  from clean_phrase_idempotent [of excerpt DEFAULT_STOPWORDS mixed_phrase]
    plain_tables_excerpt p
  have "settled excerpt (clean_phrase excerpt DEFAULT_STOPWORDS mixed_phrase)
      \<and> clean_phrase excerpt DEFAULT_STOPWORDS
          (clean_phrase excerpt DEFAULT_STOPWORDS mixed_phrase)
        = clean_phrase excerpt DEFAULT_STOPWORDS mixed_phrase"
    by (elim conjE) (rule mp, assumption, intro conjI)
  with plain_tables_excerpt p v show ?thesis by simp
qed

section \<open>Rounding to binary64\<close>

lemma bit_length_bounds:
  "0 < n \<Longrightarrow> 2 ^ (bit_length n - 1) \<le> n \<and> n < 2 ^ bit_length n"
proof (induction n rule: bit_length.induct)
  case (1 n)
  have bl: "bit_length n = Suc (bit_length (n div 2))"
    using 1(2) by (subst bit_length.simps) simp
  show ?case
  proof (cases "n div 2 = 0")
    case True
    then have "bit_length (n div 2) = 0" by (subst bit_length.simps) simp
    moreover from True 1(2) have "n = 1" by (simp add: div_eq_0_iff)
    ultimately show ?thesis using bl by simp
  next
    case False
    define k where "k = bit_length (n div 2) - 1"
    have pos: "0 < bit_length (n div 2)"
      using False by (subst bit_length.simps) simp
    then have k: "bit_length (n div 2) = Suc k" by (simp add: k_def)
    from False 1(2) have "2 ^ (bit_length (n div 2) - 1) \<le> n div 2 \<and> n div 2 < 2 ^ bit_length (n div 2)"
      by (intro 1(1)) simp_all
    then have ih: "2 ^ k \<le> n div 2" "n div 2 < 2 * 2 ^ k" by (simp_all add: k)
    have d: "2 * (n div 2) \<le> n" "n < 2 * (n div 2) + 2" by linarith+
    from ih(1) d(1) have lo: "2 * 2 ^ k \<le> n" by linarith
    from ih(2) d(2) have hi: "n < 2 * (2 * 2 ^ k)" by linarith
    show ?thesis using lo hi by (simp add: bl k)
  qed
qed

lemma ilog2_bounds:
  assumes "0 < x"
  shows "2 powi (ilog2 x) \<le> x \<and> x < 2 powi (ilog2 x + 1)"
proof (cases "1 \<le> x")
  case True
  define n where "n = nat \<lfloor>x\<rfloor>"
  from True have n: "0 < n" "rat_of_nat n \<le> x" "x < rat_of_nat n + 1"
    by (simp_all add: n_def le_floor_iff) linarith+
  from bit_length_bounds [OF n(1)] have b: "2 ^ (bit_length n - 1) \<le> n" "n < 2 ^ bit_length n"
    by simp_all
  have pos: "0 < bit_length n" using n(1) by (subst bit_length.simps) simp
  have il: "ilog2 x = int (bit_length n - 1)"
    using True pos by (simp add: ilog2_def n_def)
  have il1: "ilog2 x + 1 = int (bit_length n)"
    using il pos by simp
  have "rat_of_nat (2 ^ (bit_length n - 1)) \<le> rat_of_nat n"
    using b(1) by (rule of_nat_mono)
  then have "(2::rat) ^ (bit_length n - 1) \<le> rat_of_nat n" by simp
  from this n(2) have lo: "(2::rat) ^ (bit_length n - 1) \<le> x" by (rule order_trans)
  from b(2) have "n + 1 \<le> 2 ^ bit_length n" by simp
  then have "rat_of_nat (n + 1) \<le> rat_of_nat (2 ^ bit_length n)"
    by (rule of_nat_mono)
  then have "rat_of_nat n + 1 \<le> 2 ^ bit_length n" by simp
  with n(3) have hi: "x < (2::rat) ^ bit_length n" by (rule less_le_trans)
  have "2 powi (ilog2 x) \<le> x" using lo by (simp only: il power_int_of_nat)
  moreover have "x < 2 powi (ilog2 x + 1)" using hi by (simp only: il1 power_int_of_nat)
  ultimately show ?thesis by (rule conjI)
next
  case False
  from False assms have gt1: "1 < 1 / x" by (simp add: field_simps)
  define z where "z = \<lceil>1 / x\<rceil>"
  have c2: "2 \<le> z" unfolding z_def using gt1 by linarith
  have cl: "rat_of_int z - 1 < 1 / x" "1 / x \<le> rat_of_int z"
    unfolding z_def by linarith+
  define N where "N = nat (z - 1)"
  have N: "0 < N" "int N = z - 1" using c2 by (simp_all add: N_def)
  have "rat_of_int (int N) = rat_of_int (z - 1)" by (simp only: N(2))
  then have Nr: "rat_of_nat N = rat_of_int z - 1" by simp
  from bit_length_bounds [OF N(1)] have b: "2 ^ (bit_length N - 1) \<le> N" "N < 2 ^ bit_length N"
    by simp_all
  have pos: "0 < bit_length N" using N(1) by (subst bit_length.simps) simp
  have il: "ilog2 x = - int (bit_length N)"
    using False by (simp add: ilog2_def N_def z_def)
  from b(2) have "N + 1 \<le> 2 ^ bit_length N" by simp
  then have "rat_of_nat (N + 1) \<le> rat_of_nat (2 ^ bit_length N)"
    by (rule of_nat_mono)
  then have "rat_of_nat N + 1 \<le> 2 ^ bit_length N" by simp
  with Nr cl(2) have "1 / x \<le> 2 ^ bit_length N" by linarith
  with assms have lo: "1 / 2 ^ bit_length N \<le> x"
    by (simp add: field_simps)
  have "rat_of_nat (2 ^ (bit_length N - 1)) \<le> rat_of_nat N"
    using b(1) by (rule of_nat_mono)
  then have "(2::rat) ^ (bit_length N - 1) \<le> rat_of_nat N" by simp
  with Nr cl(1) have "(2::rat) ^ (bit_length N - 1) < 1 / x" by linarith
  with assms have hi: "x < 1 / 2 ^ (bit_length N - 1)"
    by (simp add: field_simps)
  have e1: "(2::rat) powi (- int (bit_length N)) = 1 / 2 ^ bit_length N"
    by (simp only: power_int_minus_divide power_int_of_nat)
  have eq: "- int (bit_length N) + 1 = - int (bit_length N - 1)" using pos by simp
  have e2: "(2::rat) powi (- int (bit_length N) + 1) = 1 / 2 ^ (bit_length N - 1)"
    unfolding eq by (simp only: power_int_minus_divide power_int_of_nat)
  have "2 powi (ilog2 x) \<le> x" using lo by (simp only: il e1)
  moreover have "x < 2 powi (ilog2 x + 1)" using hi by (simp only: il e2)
  ultimately show ?thesis by (rule conjI)
qed

lemma ilog2_unique:
  assumes "0 < x" and "2 powi k \<le> x" and "x < 2 powi (k + 1)"
  shows "ilog2 x = k"
proof (rule antisym)
  from ilog2_bounds [OF assms(1)] have b: "2 powi (ilog2 x) \<le> x" "x < 2 powi (ilog2 x + 1)"
    by simp_all
  show "ilog2 x \<le> k"
  proof (rule ccontr)
    assume "\<not> ilog2 x \<le> k"
    then have "k + 1 \<le> ilog2 x" by simp
    then have "(2::rat) powi (k + 1) \<le> 2 powi (ilog2 x)" by (intro power_int_increasing) simp_all
    with b(1) assms(3) show False by simp
  qed
  show "k \<le> ilog2 x"
  proof (rule ccontr)
    assume "\<not> k \<le> ilog2 x"
    then have "ilog2 x + 1 \<le> k" by simp
    then have "(2::rat) powi (ilog2 x + 1) \<le> 2 powi k" by (intro power_int_increasing) simp_all
    with b(2) assms(2) show False by simp
  qed
qed

lemma ilog2_mono:
  assumes "0 < x" and "x \<le> y"
  shows "ilog2 x \<le> ilog2 y"
proof (rule ccontr)
  assume "\<not> ilog2 x \<le> ilog2 y"
  then have "ilog2 y + 1 \<le> ilog2 x" by simp
  then have "(2::rat) powi (ilog2 y + 1) \<le> 2 powi (ilog2 x)"
    by (intro power_int_increasing) simp_all
  moreover from assms have "0 < y" by simp
  ultimately show False
    using ilog2_bounds [OF assms(1)] ilog2_bounds [OF \<open>0 < y\<close>] assms(2) by simp
qed

lemma round_half_even_cases:
  "round_half_even x = \<lfloor>x\<rfloor> \<or> round_half_even x = \<lfloor>x\<rfloor> + 1"
  by (simp add: round_half_even_def Let_def)

lemma round_half_even_of_int: "round_half_even (of_int n) = n"
  by (simp add: round_half_even_def)

lemma round_half_even_mono:
  assumes "x \<le> y"
  shows "round_half_even x \<le> round_half_even y"
proof (cases "\<lfloor>x\<rfloor> = \<lfloor>y\<rfloor>")
  case True
  with assms have "x - of_int \<lfloor>x\<rfloor> \<le> y - of_int \<lfloor>y\<rfloor>" by simp
  with True show ?thesis by (auto simp: round_half_even_def Let_def)
next
  case False
  with assms have "\<lfloor>x\<rfloor> + 1 \<le> \<lfloor>y\<rfloor>" using floor_mono [OF assms] by linarith
  moreover have "round_half_even x \<le> \<lfloor>x\<rfloor> + 1"
    using round_half_even_cases [of x] by linarith
  moreover have "\<lfloor>y\<rfloor> \<le> round_half_even y"
    using round_half_even_cases [of y] by linarith
  ultimately show ?thesis by linarith
qed

lemma round_half_even_ge: "of_int n \<le> x \<Longrightarrow> n \<le> round_half_even x"
  using round_half_even_mono [of "of_int n" x] by (simp add: round_half_even_of_int)

lemma round_half_even_le: "x \<le> of_int n \<Longrightarrow> round_half_even x \<le> n"
  using round_half_even_mono [of x "of_int n"] by (simp add: round_half_even_of_int)

text \<open>The scaled significand of a positive rational lies between \<open>2^52\<close> and \<open>2^53\<close>.\<close>

lemma significand_bounds:
  assumes "0 < x"
  shows "2 ^ 52 \<le> x / 2 powi (ilog2 x - 52)" and "x / 2 powi (ilog2 x - 52) \<le> 2 ^ 53"
proof -
  have p: "(0::rat) < 2 powi (ilog2 x - 52)" by (simp add: power_int_def)
  have a: "(2::rat) powi (ilog2 x) = 2 ^ 52 * 2 powi (ilog2 x - 52)"
    using power_int_add [of "2::rat" 52 "ilog2 x - 52"] by simp
  have b: "(2::rat) powi (ilog2 x + 1) = 2 ^ 53 * 2 powi (ilog2 x - 52)"
    using power_int_add [of "2::rat" 53 "ilog2 x - 52"] by (simp add: add.commute)
  from ilog2_bounds [OF assms] have "2 ^ 52 * 2 powi (ilog2 x - 52) \<le> x"
      "x \<le> 2 ^ 53 * 2 powi (ilog2 x - 52)"
    unfolding a b by simp_all
  with p show "2 ^ 52 \<le> x / 2 powi (ilog2 x - 52)" "x / 2 powi (ilog2 x - 52) \<le> 2 ^ 53"
    by (simp_all add: pos_le_divide_eq pos_divide_le_eq)
qed

lemma round_binary64_pos:
  "0 < x \<Longrightarrow> round_binary64 x =
     of_int (round_half_even (x / 2 powi (ilog2 x - 52))) * 2 powi (ilog2 x - 52)"
  by (simp add: round_binary64_def Let_def)

lemma round_binary64_bounds:
  assumes "0 < x"
  shows "2 powi (ilog2 x) \<le> round_binary64 x" and "round_binary64 x \<le> 2 powi (ilog2 x + 1)"
proof -
  have p: "(0::rat) < 2 powi (ilog2 x - 52)" by (simp add: power_int_def)
  have a: "(2::rat) powi (ilog2 x) = 2 ^ 52 * 2 powi (ilog2 x - 52)"
    using power_int_add [of "2::rat" 52 "ilog2 x - 52"] by simp
  have b: "(2::rat) powi (ilog2 x + 1) = 2 ^ 53 * 2 powi (ilog2 x - 52)"
    using power_int_add [of "2::rat" 53 "ilog2 x - 52"] by (simp add: add.commute)
  have "rat_of_int (2 ^ 52) \<le> x / 2 powi (ilog2 x - 52)"
    using significand_bounds(1) [OF assms] by simp
  then have "2 ^ 52 \<le> round_half_even (x / 2 powi (ilog2 x - 52))"
    by (rule round_half_even_ge)
  then have "rat_of_int (2 ^ 52) \<le> rat_of_int (round_half_even (x / 2 powi (ilog2 x - 52)))"
    by (simp only: of_int_le_iff)
  then have lo: "(2::rat) ^ 52 \<le> rat_of_int (round_half_even (x / 2 powi (ilog2 x - 52)))"
    by simp
  have "x / 2 powi (ilog2 x - 52) \<le> rat_of_int (2 ^ 53)"
    using significand_bounds(2) [OF assms] by simp
  then have "round_half_even (x / 2 powi (ilog2 x - 52)) \<le> 2 ^ 53"
    by (rule round_half_even_le)
  then have "rat_of_int (round_half_even (x / 2 powi (ilog2 x - 52))) \<le> rat_of_int (2 ^ 53)"
    by (simp only: of_int_le_iff)
  then have hi: "rat_of_int (round_half_even (x / 2 powi (ilog2 x - 52))) \<le> (2::rat) ^ 53"
    by simp
  show "2 powi (ilog2 x) \<le> round_binary64 x"
    unfolding round_binary64_pos [OF assms] a using lo p by (intro mult_right_mono) simp_all
  show "round_binary64 x \<le> 2 powi (ilog2 x + 1)"
    unfolding round_binary64_pos [OF assms] b using hi p by (intro mult_right_mono) simp_all
qed

lemma round_binary64_positive: "0 < x \<Longrightarrow> 0 < round_binary64 x"
proof -
  assume x: "0 < x"
  have "(0::rat) < 2 powi (ilog2 x)" by (simp add: power_int_def)
  with round_binary64_bounds(1) [OF x] show ?thesis by linarith
qed

lemma round_binary64_mono:
  assumes "0 < x" and "x \<le> y"
  shows "round_binary64 x \<le> round_binary64 y"
proof -
  from assms have y: "0 < y" by simp
  have le: "ilog2 x \<le> ilog2 y" using assms by (rule ilog2_mono)
  show ?thesis
  proof (cases "ilog2 x = ilog2 y")
    case True
    have p: "(0::rat) < 2 powi (ilog2 y - 52)" by (simp add: power_int_def)
    with assms(2) have "x / 2 powi (ilog2 y - 52) \<le> y / 2 powi (ilog2 y - 52)"
      by (simp add: divide_right_mono)
    then have "round_half_even (x / 2 powi (ilog2 y - 52))
        \<le> round_half_even (y / 2 powi (ilog2 y - 52))"
      by (rule round_half_even_mono)
    then have "rat_of_int (round_half_even (x / 2 powi (ilog2 y - 52)))
        \<le> rat_of_int (round_half_even (y / 2 powi (ilog2 y - 52)))"
      by (simp only: of_int_le_iff)
    with p show ?thesis
      unfolding round_binary64_pos [OF assms(1)] round_binary64_pos [OF y] True
      by (intro mult_right_mono) simp_all
  next
    case False
    with le have "ilog2 x + 1 \<le> ilog2 y" by simp
    then have "(2::rat) powi (ilog2 x + 1) \<le> 2 powi (ilog2 y)"
      by (intro power_int_increasing) simp_all
    with round_binary64_bounds(2) [OF assms(1)] round_binary64_bounds(1) [OF y]
    show ?thesis by linarith
  qed
qed

lemma round_binary64_exact:
  assumes "0 < x" and "2 powi k \<le> x" and "x < 2 powi (k + 1)"
    and "x / 2 powi (k - 52) = of_int m"
  shows "round_binary64 x = x"
proof -
  have il: "ilog2 x = k" using assms(1-3) by (rule ilog2_unique)
  have p: "(2::rat) powi (k - 52) \<noteq> 0" by (simp add: power_int_def)
  from assms(4) p have "x = of_int m * 2 powi (k - 52)" by (simp add: field_simps)
  then show ?thesis
    unfolding round_binary64_pos [OF assms(1)] il assms(4) round_half_even_of_int by simp
qed

lemma round_binary64_1: "round_binary64 1 = 1"
  by (rule round_binary64_exact [of 1 0 "2 ^ 52"]) simp_all

lemma round_binary64_100: "round_binary64 100 = 100"
  by (rule round_binary64_exact [of 100 6 "100 * 2 ^ 46"]) simp_all



text \<open>Rules that evaluate the float operations on numerals.\<close>

lemma floor_numeral_div: "\<lfloor>(numeral a :: rat) / numeral b\<rfloor> = numeral a div numeral b"
  using floor_divide_of_int_eq [of "numeral a" "numeral b", where ?'a = rat] by simp

lemma ceiling_numeral_div:
  "\<lceil>(numeral a :: rat) / numeral b\<rceil> = - (- numeral a div numeral b)"
  using floor_divide_of_int_eq [of "- numeral a" "numeral b", where ?'a = rat]
  by (simp add: ceiling_def)

lemma bit_length_0: "bit_length 0 = 0"
  by (subst bit_length.simps) simp

lemma bit_length_1: "bit_length 1 = 1"
  by (subst bit_length.simps) (simp add: bit_length_0)

lemma bit_length_Suc_0: "bit_length (Suc 0) = 1"
  using bit_length_1 by simp

lemma bit_length_numeral: "bit_length (numeral k) = Suc (bit_length (numeral k div 2))"
  by (subst bit_length.simps) simp

lemmas float_eval = progress_value_def py_int_def fmul_def truediv_def round_binary64_def
  ilog2_def round_half_even_def Let_def py_round2_def floor_numeral_div ceiling_numeral_div
  bit_length_0 bit_length_1 bit_length_Suc_0 bit_length_numeral

text \<open>The error of rounding, to an integer and to a float.\<close>

lemma round_half_even_error: "\<bar>rat_of_int (round_half_even x) - x\<bar> \<le> 1 / 2"
proof -
  have "rat_of_int \<lfloor>x\<rfloor> \<le> x" "x < rat_of_int \<lfloor>x\<rfloor> + 1" by linarith+
  then show ?thesis
    by (auto simp: round_half_even_def Let_def abs_le_iff not_less)
qed

lemma round_binary64_error:
  assumes "0 < x"
  shows "\<bar>round_binary64 x - x\<bar> \<le> x / 2 ^ 53"
proof -
  define p where "p = (2::rat) powi (ilog2 x - 52)"
  define m where "m = x / p"
  have p: "0 < p" by (simp add: p_def power_int_def)
  have x: "x = m * p" using p by (simp add: m_def)
  have m: "2 ^ 52 \<le> m" unfolding m_def p_def using assms by (rule significand_bounds(1))
  have r: "round_binary64 x = rat_of_int (round_half_even m) * p"
    unfolding m_def p_def using assms by (rule round_binary64_pos)
  have "round_binary64 x - x = (rat_of_int (round_half_even m) - m) * p"
    unfolding r by (simp add: x algebra_simps)
  then have "\<bar>round_binary64 x - x\<bar> = \<bar>rat_of_int (round_half_even m) - m\<bar> * p"
    using p by (simp add: abs_mult)
  also have "\<dots> \<le> 1 / 2 * p"
    using round_half_even_error [of m] p by (intro mult_right_mono) simp_all
  also have "\<dots> \<le> (m / 2 ^ 52) * (1 / 2 * p)"
  proof -
    have "1 \<le> m / 2 ^ 52" using m by simp
    moreover have "0 \<le> 1 / 2 * p" using p by simp
    ultimately show ?thesis using mult_right_mono [of 1 "m / 2 ^ 52" "1 / 2 * p"] by simp
  qed
  also have "\<dots> = x / 2 ^ 53" by (simp add: x)
  finally show ?thesis .
qed

text \<open>The percentage of a quotient at most 1, as the code computes it, against the exact value.\<close>

lemma float_percentage_error:
  assumes "0 < q" and "q \<le> 1"
  shows "\<bar>fmul (round_binary64 q) 100 - 100 * q\<bar> \<le> 200 / 2 ^ 53"
proof -
  define r where "r = round_binary64 q"
  have r0: "0 < r" unfolding r_def using assms(1) by (rule round_binary64_positive)
  have "r \<le> round_binary64 1" unfolding r_def using assms by (rule round_binary64_mono)
  then have r1: "r \<le> 1" by (simp add: round_binary64_1)
  have e1: "\<bar>r - q\<bar> \<le> 1 / 2 ^ 53"
  proof -
    have "\<bar>r - q\<bar> \<le> q / 2 ^ 53" unfolding r_def using assms(1) by (rule round_binary64_error)
    also have "\<dots> \<le> 1 / 2 ^ 53" using assms(2) by (simp add: divide_right_mono)
    finally show ?thesis .
  qed
  have p: "0 < r * 100" using r0 by simp
  have e2: "\<bar>round_binary64 (r * 100) - r * 100\<bar> \<le> 100 / 2 ^ 53"
  proof -
    have "\<bar>round_binary64 (r * 100) - r * 100\<bar> \<le> (r * 100) / 2 ^ 53"
      using p by (rule round_binary64_error)
    also have "\<dots> \<le> 100 / 2 ^ 53" using r1 by (simp add: divide_right_mono)
    finally show ?thesis .
  qed
  have "round_binary64 (r * 100) - 100 * q = (round_binary64 (r * 100) - r * 100) + 100 * (r - q)"
    by (simp add: algebra_simps)
  then have "\<bar>round_binary64 (r * 100) - 100 * q\<bar>
      \<le> \<bar>round_binary64 (r * 100) - r * 100\<bar> + \<bar>100 * (r - q)\<bar>"
    by (simp only: abs_triangle_ineq)
  also have "\<bar>100 * (r - q)\<bar> = 100 * \<bar>r - q\<bar>" by (simp only: abs_mult abs_numeral)
  also have "\<bar>round_binary64 (r * 100) - r * 100\<bar> + 100 * \<bar>r - q\<bar>
      \<le> 100 / 2 ^ 53 + 100 * (1 / 2 ^ 53)"
    using e1 e2 by (intro add_mono mult_left_mono) simp_all
  finally show ?thesis by (simp add: fmul_def r_def)
qed






section \<open>Progress\<close>

lemma progress_value_mono:
  assumes "0 < n" and "k \<le> k'"
  shows "progress_value k n \<le> progress_value k' n"
proof -
  define q where "q = rat_of_int (int k + 1) / rat_of_int (int n)"
  define q' where "q' = rat_of_int (int k' + 1) / rat_of_int (int n)"
  have n: "(0::rat) < rat_of_int (int n)" using assms(1) by simp
  have q: "0 < q" unfolding q_def using n by (intro divide_pos_pos) simp_all
  have "rat_of_int (int k + 1) \<le> rat_of_int (int k' + 1)" using assms(2) by simp
  then have qq: "q \<le> q'" unfolding q_def q'_def using n by (intro divide_right_mono) simp_all
  have r: "0 < round_binary64 q" using q by (rule round_binary64_positive)
  have rr: "round_binary64 q \<le> round_binary64 q'" using q qq by (rule round_binary64_mono)
  have p: "0 < round_binary64 q * 100" using r by simp
  have pp: "round_binary64 q * 100 \<le> round_binary64 q' * 100" using rr by simp
  have s: "0 < round_binary64 (round_binary64 q * 100)" using p by (rule round_binary64_positive)
  have ss: "round_binary64 (round_binary64 q * 100) \<le> round_binary64 (round_binary64 q' * 100)"
    using p pp by (rule round_binary64_mono)
  from s ss have s': "0 < round_binary64 (round_binary64 q' * 100)" by linarith
  have "\<lfloor>round_binary64 (round_binary64 q * 100)\<rfloor> \<le> \<lfloor>round_binary64 (round_binary64 q' * 100)\<rfloor>"
    using ss by (rule floor_mono)
  with s s' show ?thesis
    by (simp add: progress_value_def py_int_def fmul_def truediv_def q_def q'_def)
qed

lemma progress_value_last:
  assumes "0 < n"
  shows "progress_value (n - 1) n = 100"
proof -
  from assms have "int (n - 1) + 1 = int n" by simp
  then have "truediv (int (n - 1) + 1) (int n) = round_binary64 (rat_of_int (int n) / rat_of_int (int n))"
    by (simp only: truediv_def)
  also have "\<dots> = 1" using assms by (simp add: round_binary64_1)
  finally show ?thesis
    by (simp add: progress_value_def fmul_def round_binary64_100 py_int_def)
qed

lemma process_rows_results:
  "fst (process_rows U M n idx rows) =
     map (\<lambda>cell. make_row (cell_phrase cell) (extract_all U M (cell_phrase cell))) rows"
  by (induction rows arbitrary: idx) (simp_all add: Let_def split_beta cell_phrase_def)

lemma process_rows_calls:
  "snd (process_rows U M n idx rows) = map (\<lambda>k. progress_value k n) [idx ..< idx + length rows]"
proof (induction rows arbitrary: idx)
  case Nil
  then show ?case by simp
next
  case (Cons cell rest)
  have "[idx ..< idx + length (cell # rest)] = idx # [Suc idx ..< Suc idx + length rest]"
    by (simp add: upt_rec)
  with Cons [of "Suc idx"] show ?case by (simp add: Let_def split_beta)
qed

lemma sorted_progress: "0 < n \<Longrightarrow> sorted (map (\<lambda>k. progress_value k n) [i ..< j])"
  by (simp add: sorted_map sorted_wrt_iff_nth_less progress_value_mono)

text \<open>
  The value passed against the exact percentage rounded down: never more than one
  below it, and for batches of up to \<open>2^40\<close> rows never above it and equal to it
  whenever the exact percentage is not a whole number.
\<close>

lemma exact_progress_div: "exact_progress k n = (100 * (int k + 1)) div int n"
proof -
  have "rat_of_nat (k + 1) / rat_of_nat n * 100 = rat_of_int (100 * (int k + 1)) / rat_of_int (int n)"
    by simp
  then show ?thesis
    unfolding exact_progress_def by (simp only: floor_divide_of_int_eq)
qed

lemma progress_value_floor:
  assumes "0 < n" and "k < n"
  shows "progress_value k n = \<lfloor>fmul (round_binary64 (rat_of_nat (k + 1) / rat_of_nat n)) 100\<rfloor>"
    and "\<bar>fmul (round_binary64 (rat_of_nat (k + 1) / rat_of_nat n)) 100
          - rat_of_nat (k + 1) / rat_of_nat n * 100\<bar> \<le> 200 / 2 ^ 53"
proof -
  define q where "q = rat_of_nat (k + 1) / rat_of_nat n"
  have q0: "0 < q" unfolding q_def using assms(1) by simp
  have q1: "q \<le> 1" unfolding q_def using assms by simp
  have r: "0 < round_binary64 q" using q0 by (rule round_binary64_positive)
  then have "0 < round_binary64 q * 100" by simp
  then have "0 < fmul (round_binary64 q) 100"
    unfolding fmul_def by (rule round_binary64_positive)
  moreover have "truediv (int k + 1) (int n) = round_binary64 q"
    by (simp add: truediv_def q_def add.commute)
  ultimately show "progress_value k n = \<lfloor>fmul (round_binary64 (rat_of_nat (k + 1) / rat_of_nat n)) 100\<rfloor>"
    by (simp add: progress_value_def py_int_def q_def)
  from float_percentage_error [OF q0 q1]
  show "\<bar>fmul (round_binary64 (rat_of_nat (k + 1) / rat_of_nat n)) 100
          - rat_of_nat (k + 1) / rat_of_nat n * 100\<bar> \<le> 200 / 2 ^ 53"
    by (simp add: q_def mult.commute)
qed

lemma progress_value_lower:
  assumes "0 < n" and "k < n"
  shows "exact_progress k n - 1 \<le> progress_value k n"
proof -
  define E where "E = rat_of_nat (k + 1) / rat_of_nat n * 100"
  define x where "x = fmul (round_binary64 (rat_of_nat (k + 1) / rat_of_nat n)) 100"
  have v: "progress_value k n = \<lfloor>x\<rfloor>" and e: "\<bar>x - E\<bar> \<le> 200 / 2 ^ 53"
    unfolding x_def E_def using progress_value_floor [OF assms] by simp_all
  have "rat_of_int \<lfloor>E\<rfloor> \<le> E" by simp
  moreover have "(200::rat) / 2 ^ 53 \<le> 1" by simp
  ultimately have "rat_of_int \<lfloor>E\<rfloor> - 1 \<le> x" using e by linarith
  then have "rat_of_int (\<lfloor>E\<rfloor> - 1) \<le> x" by simp
  then have "\<lfloor>E\<rfloor> - 1 \<le> \<lfloor>x\<rfloor>" by (simp only: le_floor_iff)
  then show ?thesis by (simp add: v exact_progress_def E_def)
qed

lemma progress_value_upper:
  assumes "0 < n" and "k < n" and "n \<le> 2 ^ 40"
  shows "progress_value k n \<le> exact_progress k n"
    and "\<not> int n dvd 100 * (int k + 1) \<Longrightarrow> progress_value k n = exact_progress k n"
proof -
  define a where "a = 100 * (int k + 1)"
  define f where "f = a div int n"
  define \<rho> where "\<rho> = a mod int n"
  define E where "E = rat_of_nat (k + 1) / rat_of_nat n * 100"
  define x where "x = fmul (round_binary64 (rat_of_nat (k + 1) / rat_of_nat n)) 100"
  have v: "progress_value k n = \<lfloor>x\<rfloor>" and e: "\<bar>x - E\<bar> \<le> 200 / 2 ^ 53"
    unfolding x_def E_def using progress_value_floor [OF assms(1,2)] by simp_all
  have n: "(0::rat) < rat_of_nat n" using assms(1) by simp
  have ef: "exact_progress k n = f" by (simp add: exact_progress_div f_def a_def)
  have "a = int n * f + \<rho>" by (simp add: f_def \<rho>_def)
  then have "rat_of_int a = rat_of_nat n * rat_of_int f + rat_of_int \<rho>"
    by (metis of_int_add of_int_mult of_int_of_nat_eq)
  moreover have "E = rat_of_int a / rat_of_nat n" by (simp add: E_def a_def)
  ultimately have E: "E = rat_of_int f + rat_of_int \<rho> / rat_of_nat n"
    using n by (simp add: field_simps)
  have \<rho>: "0 \<le> \<rho>" "\<rho> \<le> int n - 1" using assms(1) by (simp_all add: \<rho>_def)
  have small: "(200::rat) / 2 ^ 53 < 1 / rat_of_nat n"
  proof -
    have "rat_of_nat n \<le> rat_of_nat (2 ^ 40)" using assms(3) by (simp only: of_nat_le_iff)
    then have "rat_of_nat n \<le> 2 ^ 40" by simp
    then have "1 / (2 ^ 40 :: rat) \<le> 1 / rat_of_nat n" using n by (simp add: frac_le)
    moreover have "(200::rat) / 2 ^ 53 < 1 / 2 ^ 40" by simp
    ultimately show ?thesis by linarith
  qed
  have "rat_of_int \<rho> \<le> rat_of_nat n - 1" using \<rho>(2)
    by (metis of_int_1 of_int_diff of_int_le_iff of_int_of_nat_eq)
  then have "rat_of_int \<rho> / rat_of_nat n \<le> (rat_of_nat n - 1) / rat_of_nat n"
    using n by (simp add: divide_right_mono)
  also have "\<dots> = 1 - 1 / rat_of_nat n" using n by (simp add: field_simps)
  finally have "E \<le> rat_of_int f + 1 - 1 / rat_of_nat n" unfolding E by simp
  with e small have "x < rat_of_int f + 1" by linarith
  then have "x < rat_of_int (f + 1)" by simp
  then have "\<lfloor>x\<rfloor> < f + 1" by (simp only: floor_less_iff)
  then show up: "progress_value k n \<le> exact_progress k n" by (simp add: v ef)
  assume "\<not> int n dvd 100 * (int k + 1)"
  then have "\<rho> \<noteq> 0" by (simp add: \<rho>_def a_def dvd_eq_mod_eq_0)
  with \<rho>(1) have "1 \<le> \<rho>" by simp
  then have "rat_of_int 1 \<le> rat_of_int \<rho>" by (simp only: of_int_le_iff)
  then have "1 / rat_of_nat n \<le> rat_of_int \<rho> / rat_of_nat n"
    using n by (simp add: divide_right_mono)
  then have "rat_of_int f + 1 / rat_of_nat n \<le> E" unfolding E by simp
  with e small have "rat_of_int f \<le> x" by linarith
  then have "f \<le> \<lfloor>x\<rfloor>" by (simp only: le_floor_iff)
  with up show "progress_value k n = exact_progress k n" by (simp add: v ef)
qed

text \<open>
  C6 as stated (the value passed is the exact percentage of completed rows rounded
  down) fails. The value is computed in floats: after the 29th of 100 rows,
  \<open>29 / 100\<close> is the float just above 0.29, its product with 100 rounds to the float
  just below 29, and the callback receives 28, where the exact percentage is 29.
\<close>

theorem progress_exact_floor_counterexample:
  "out_progress (process_file excerpt shoe_matcher (replicate 100 None)) ! 28 = 28
   \<and> exact_progress 28 100 = 29"
proof -
  have a: "apply_rank_limit shoe_matcher (replicate 100 None) = replicate 100 None"
    by (simp add: apply_rank_limit_def shoe_matcher_def)
  have "out_progress (process_file excerpt shoe_matcher (replicate 100 None))
      = snd (process_rows excerpt shoe_matcher 100 0 (replicate 100 None))"
    by (simp add: process_file_def Let_def split_beta a)
  also have "\<dots> = map (\<lambda>k. progress_value k 100) [0 ..< 100]"
    by (simp add: process_rows_calls)
  finally have "out_progress (process_file excerpt shoe_matcher (replicate 100 None)) ! 28
      = progress_value 28 100"
    by simp
  moreover have "progress_value 28 100 = 28" by (simp add: float_eval)
  moreover have "exact_progress 28 100 = 29" by (simp add: exact_progress_def)
  ultimately show ?thesis by simp
qed

text \<open>
  C6, amended: for a batch of \<open>n > 0\<close> rows (after the rank limit) the callback is
  called once after each row, \<open>n\<close> times in all; the call after row \<open>k\<close> (counted
  from 0) passes \<open>int((k + 1) / n * 100)\<close>, computed in floats; the values passed
  never decrease, and the last one is 100. The value passed is never more than one
  below the exact percentage of completed rows rounded down; for up to \<open>2^40\<close> rows it
  is never above it, and it equals it whenever \<open>100 * (k + 1)\<close> is not a multiple of
  \<open>n\<close>.
\<close>

theorem progress_reports:
  assumes "apply_rank_limit M rows \<noteq> []"
  shows "length (out_rows (process_file U M rows)) = length (apply_rank_limit M rows)
     \<and> total_processed (process_file U M rows) = length (apply_rank_limit M rows)
     \<and> out_progress (process_file U M rows) =
          map (\<lambda>k. progress_value k (length (apply_rank_limit M rows)))
            [0 ..< length (apply_rank_limit M rows)]
     \<and> sorted (out_progress (process_file U M rows))
     \<and> last (out_progress (process_file U M rows)) = 100
     \<and> (\<forall>k < length (apply_rank_limit M rows).
           exact_progress k (length (apply_rank_limit M rows)) - 1
             \<le> out_progress (process_file U M rows) ! k)
     \<and> (length (apply_rank_limit M rows) \<le> 2 ^ 40 \<longrightarrow>
          (\<forall>k < length (apply_rank_limit M rows).
             out_progress (process_file U M rows) ! k
               \<le> exact_progress k (length (apply_rank_limit M rows))
             \<and> (\<not> int (length (apply_rank_limit M rows)) dvd 100 * (int k + 1) \<longrightarrow>
                  out_progress (process_file U M rows) ! k
                    = exact_progress k (length (apply_rank_limit M rows)))))"
proof -
  define df where "df = apply_rank_limit M rows"
  define n where "n = length df"
  from assms have n: "0 < n" by (simp add: n_def df_def)
  have rows: "out_rows (process_file U M rows) = fst (process_rows U M n 0 df)"
    and tot: "total_processed (process_file U M rows) = n"
    and calls: "out_progress (process_file U M rows) = snd (process_rows U M n 0 df)"
    by (simp_all add: process_file_def Let_def split_beta df_def n_def)
  have c: "out_progress (process_file U M rows) = map (\<lambda>k. progress_value k n) [0 ..< n]"
    unfolding calls process_rows_calls by (simp add: n_def)
  have s: "sorted (out_progress (process_file U M rows))"
    unfolding c using n by (rule sorted_progress)
  have "[0 ..< n] \<noteq> []" using n by simp
  then have "last (map (\<lambda>k. progress_value k n) [0 ..< n]) = progress_value (last [0 ..< n]) n"
    by (rule last_map)
  also have "last [0 ..< n] = n - 1" using n by (cases n) simp_all
  finally have l: "last (out_progress (process_file U M rows)) = 100"
    unfolding c using progress_value_last [OF n] by simp
  have len: "length (out_rows (process_file U M rows)) = n"
    unfolding rows process_rows_results by (simp add: n_def)
  have nth: "out_progress (process_file U M rows) ! k = progress_value k n" if "k < n" for k
    unfolding c using that by simp
  have lo: "\<forall>k < n. exact_progress k n - 1 \<le> out_progress (process_file U M rows) ! k"
    using progress_value_lower [OF n] nth by simp
  have up: "n \<le> 2 ^ 40 \<longrightarrow>
          (\<forall>k < n. out_progress (process_file U M rows) ! k \<le> exact_progress k n
             \<and> (\<not> int n dvd 100 * (int k + 1) \<longrightarrow>
                  out_progress (process_file U M rows) ! k = exact_progress k n))"
    using progress_value_upper [OF n] nth by simp
  from len tot c s l lo up show ?thesis unfolding n_def df_def by simp
qed

theorem progress_reports_witness:
  "apply_rank_limit shoe_matcher ten_rows \<noteq> []
   \<and> length (out_rows (process_file excerpt shoe_matcher ten_rows)) = 10
   \<and> out_progress (process_file excerpt shoe_matcher ten_rows)
       = [10, 20, 30, 40, 50, 60, 70, 80, 90, 100]
   \<and> sorted (out_progress (process_file excerpt shoe_matcher ten_rows))
   \<and> last (out_progress (process_file excerpt shoe_matcher ten_rows)) = 100
   \<and> apply_rank_limit shoe_matcher (take 3 ten_rows) \<noteq> []
   \<and> length (apply_rank_limit shoe_matcher (take 3 ten_rows)) \<le> 2 ^ 40
   \<and> \<not> int (length (apply_rank_limit shoe_matcher (take 3 ten_rows))) dvd 100 * (int 0 + 1)
   \<and> out_progress (process_file excerpt shoe_matcher (take 3 ten_rows)) ! 0
       = exact_progress 0 (length (apply_rank_limit shoe_matcher (take 3 ten_rows)))
   \<and> exact_progress 0 (length (apply_rank_limit shoe_matcher (take 3 ten_rows))) = 33"
proof -
  have a: "apply_rank_limit shoe_matcher rs = rs" for rs :: "ustring option list"
    by (simp add: apply_rank_limit_def shoe_matcher_def)
  have n: "length ten_rows = 10" by (simp add: ten_rows_def)
  have n3: "length (take 3 ten_rows) = 3" by (simp add: ten_rows_def)
  have h: "apply_rank_limit shoe_matcher ten_rows \<noteq> []"
    unfolding a by (simp add: ten_rows_def)
  have h3: "apply_rank_limit shoe_matcher (take 3 ten_rows) \<noteq> []"
    unfolding a by (simp add: ten_rows_def)
  have v: "map (\<lambda>k. progress_value k 10) [0 ..< 10] = [10, 20, 30, 40, 50, 60, 70, 80, 90, 100]"
    by (simp add: float_eval upt_rec)
  have e: "exact_progress 0 3 = 33" by (simp add: exact_progress_def floor_numeral_div)
  have d: "\<not> int 3 dvd 100 * (int 0 + 1)" by simp
  have ten: "length (out_rows (process_file excerpt shoe_matcher ten_rows)) = 10
   \<and> out_progress (process_file excerpt shoe_matcher ten_rows)
       = [10, 20, 30, 40, 50, 60, 70, 80, 90, 100]
   \<and> sorted (out_progress (process_file excerpt shoe_matcher ten_rows))
   \<and> last (out_progress (process_file excerpt shoe_matcher ten_rows)) = 100"
    using progress_reports [OF h, of excerpt] unfolding a n v by simp
  note T = progress_reports [OF h3, of excerpt, unfolded a n3]
  have le: "(3::nat) \<le> 2 ^ 40" by simp
  from T have "(3::nat) \<le> 2 ^ 40 \<longrightarrow>
      (\<forall>k < 3. out_progress (process_file excerpt shoe_matcher (take 3 ten_rows)) ! k
             \<le> exact_progress k 3
         \<and> (\<not> int 3 dvd 100 * (int k + 1) \<longrightarrow>
              out_progress (process_file excerpt shoe_matcher (take 3 ten_rows)) ! k
                = exact_progress k 3))"
    by (elim conjE)
  with le have "\<forall>k < 3. out_progress (process_file excerpt shoe_matcher (take 3 ten_rows)) ! k
             \<le> exact_progress k 3
         \<and> (\<not> int 3 dvd 100 * (int k + 1) \<longrightarrow>
              out_progress (process_file excerpt shoe_matcher (take 3 ten_rows)) ! k
                = exact_progress k 3)"
    by (rule rev_mp)
  then have "\<not> int 3 dvd 100 * (int 0 + 1) \<longrightarrow>
      out_progress (process_file excerpt shoe_matcher (take 3 ten_rows)) ! 0 = exact_progress 0 3"
    by (elim allE [of _ 0]) (simp only: zero_less_numeral simp_thms, elim conjE)
  with d have three:
    "out_progress (process_file excerpt shoe_matcher (take 3 ten_rows)) ! 0 = exact_progress 0 3"
    by (rule rev_mp)
  from ten three h h3 d e show ?thesis unfolding a n3 by simp
qed

section \<open>Coverage\<close>




















end
